theory Spec2Isabelle
  imports Main "HOL-Library.Word" "HOL-Library.AList"
begin

unbundle bit_operations_syntax

section \<open>Strings, bytes and hexadecimal text\<close>

text \<open>
  A JavaScript string is modelled as a \<^typ>\<open>string\<close>: a list of 8-bit code units, the
  Latin-1 range that Node's HTTP parser produces for header values. A \<open>Buffer\<close> is a list
  of bytes.
\<close>

type_synonym byte = "8 word"
type_synonym w32 = "32 word"

text \<open>
  \<open>String.prototype.toLowerCase\<close> on code units below 256: the ASCII capitals and the
  Latin-1 capitals (\<open>0xC0\<close> to \<open>0xDE\<close> without the multiplication sign \<open>0xD7\<close>) move
  up by 32; every other unit stays.
\<close>

definition lowerChar :: "char \<Rightarrow> char" where
  "lowerChar c =
     (let n = (of_char c :: nat)
      in if (65 \<le> n \<and> n \<le> 90) \<or> (192 \<le> n \<and> n \<le> 222 \<and> n \<noteq> 215)
         then char_of (n + 32) else c)"

definition toLowerCase :: "string \<Rightarrow> string" where
  "toLowerCase s = map lowerChar s"

text \<open>
  White space as \<open>String.prototype.trim\<close> sees it among the code units below 256: tab, line
  feed, vertical tab, form feed, carriage return, space and the no-break space.
\<close>

definition isWhiteSpace :: "char \<Rightarrow> bool" where
  "isWhiteSpace c = ((of_char c :: nat) \<in> {9, 10, 11, 12, 13, 32, 160})"

definition trim :: "string \<Rightarrow> string" where
  "trim s = rev (dropWhile isWhiteSpace (rev (dropWhile isWhiteSpace s)))"

text \<open>The value of one hexadecimal digit, either case; \<open>None\<close> for any other unit.\<close>

definition unhex :: "char \<Rightarrow> nat option" where
  "unhex c =
     (let n = (of_char c :: nat)
      in if 48 \<le> n \<and> n \<le> 57 then Some (n - 48)
         else if 97 \<le> n \<and> n \<le> 102 then Some (n - 87)
         else if 65 \<le> n \<and> n \<le> 70 then Some (n - 55)
         else None)"

text \<open>
  \<open>Buffer.from(str, 'hex')\<close>: Node decodes two digits at a time and stops, without an
  error, at the first pair that is not two hexadecimal digits; a trailing single digit
  is dropped. It never throws on a string.
\<close>

fun hexDecode :: "string \<Rightarrow> byte list" where
  "hexDecode (a # b # cs) =
     (case unhex a of
        None \<Rightarrow> []
      | Some x \<Rightarrow> (case unhex b of
                    None \<Rightarrow> []
                  | Some y \<Rightarrow> of_nat (16 * x + y) # hexDecode cs))"
| "hexDecode [a] = []"
| "hexDecode [] = []"

text \<open>\<open>digest('hex')\<close> and \<open>buf.toString('hex')\<close>: two lower-case digits for each byte.\<close>

definition hexDigit :: "nat \<Rightarrow> char" where
  "hexDigit n = (if n < 10 then char_of (48 + n) else char_of (87 + n))"

definition hexDigitUpper :: "nat \<Rightarrow> char" where
  "hexDigitUpper n = (if n < 10 then char_of (48 + n) else char_of (55 + n))"

definition hexByte :: "(nat \<Rightarrow> char) \<Rightarrow> byte \<Rightarrow> string" where
  "hexByte d b = [d (unat (drop_bit 4 b)), d (unat (b AND 15))]"

definition toHex :: "byte list \<Rightarrow> string" where
  "toHex bs = concat (map (hexByte hexDigit) bs)"

definition toHexUpper :: "byte list \<Rightarrow> string" where
  "toHexUpper bs = concat (map (hexByte hexDigitUpper) bs)"


section \<open>SHA-256\<close>

text \<open>
  \<open>crypto.createHash('sha256').update(buf).digest()\<close>, as FIPS 180-4 defines it, on
  32-bit words. The round constants and the initial hash value are written in decimal.
\<close>

definition Ch :: "w32 \<Rightarrow> w32 \<Rightarrow> w32 \<Rightarrow> w32" where
  "Ch x y z = (x AND y) XOR (NOT x AND z)"

definition Maj :: "w32 \<Rightarrow> w32 \<Rightarrow> w32 \<Rightarrow> w32" where
  "Maj x y z = (x AND y) XOR (x AND z) XOR (y AND z)"

definition Sigma0 :: "w32 \<Rightarrow> w32" where
  "Sigma0 x = word_rotr 2 x XOR word_rotr 13 x XOR word_rotr 22 x"

definition Sigma1 :: "w32 \<Rightarrow> w32" where
  "Sigma1 x = word_rotr 6 x XOR word_rotr 11 x XOR word_rotr 25 x"

definition sigma0 :: "w32 \<Rightarrow> w32" where
  "sigma0 x = word_rotr 7 x XOR word_rotr 18 x XOR drop_bit 3 x"

definition sigma1 :: "w32 \<Rightarrow> w32" where
  "sigma1 x = word_rotr 17 x XOR word_rotr 19 x XOR drop_bit 10 x"

definition K256 :: "w32 list" where
  "K256 =
    [1116352408, 1899447441, 3049323471, 3921009573, 961987163, 1508970993,
     2453635748, 2870763221, 3624381080, 310598401, 607225278, 1426881987,
     1925078388, 2162078206, 2614888103, 3248222580, 3835390401, 4022224774,
     264347078, 604807628, 770255983, 1249150122, 1555081692, 1996064986,
     2554220882, 2821834349, 2952996808, 3210313671, 3336571891, 3584528711,
     113926993, 338241895, 666307205, 773529912, 1294757372, 1396182291,
     1695183700, 1986661051, 2177026350, 2456956037, 2730485921, 2820302411,
     3259730800, 3345764771, 3516065817, 3600352804, 4094571909, 275423344,
     430227734, 506948616, 659060556, 883997877, 958139571, 1322822218,
     1537002063, 1747873779, 1955562222, 2024104815, 2227730452, 2361852424,
     2428436474, 2756734187, 3204031479, 3329325298]"

definition H0 :: "w32 list" where
  "H0 = [1779033703, 3144134277, 1013904242, 2773480762,
         1359893119, 2600822924, 528734635, 1541459225]"

definition be_bytes :: "nat \<Rightarrow> 'a::len word \<Rightarrow> byte list" where
  "be_bytes n v = map (\<lambda>i. ucast (drop_bit (8 * (n - 1 - i)) v)) [0..<n]"

definition pad :: "byte list \<Rightarrow> byte list" where
  "pad m = m @ [0x80] @ replicate ((119 - length m mod 64) mod 64) 0
             @ be_bytes 8 (of_nat (8 * length m) :: 64 word)"

fun be_words :: "byte list \<Rightarrow> w32 list" where
  "be_words (a # b # c # d # r) =
     (push_bit 24 (ucast a) OR push_bit 16 (ucast b) OR push_bit 8 (ucast c) OR ucast d)
       # be_words r"
| "be_words _ = []"

fun schedule :: "nat \<Rightarrow> w32 list \<Rightarrow> w32 list" where
  "schedule 0 w = w"
| "schedule (Suc n) w =
     schedule n (w @ [sigma1 (w ! (length w - 2)) + w ! (length w - 7)
                      + sigma0 (w ! (length w - 15)) + w ! (length w - 16)])"

definition round :: "w32 list \<Rightarrow> w32 \<times> w32 \<Rightarrow> w32 list" where
  "round s kw =
     (let a = s ! 0; b = s ! 1; c = s ! 2; d = s ! 3;
          e = s ! 4; f = s ! 5; g = s ! 6; h = s ! 7;
          t1 = h + Sigma1 e + Ch e f g + fst kw + snd kw;
          t2 = Sigma0 a + Maj a b c
      in [t1 + t2, a, b, c, d + t1, e, f, g])"

definition compress :: "w32 list \<Rightarrow> w32 list \<Rightarrow> w32 list" where
  "compress hs block = map2 (+) hs (foldl round hs (zip K256 (schedule 48 block)))"

fun blocks :: "nat \<Rightarrow> w32 list \<Rightarrow> w32 list \<Rightarrow> w32 list" where
  "blocks 0 hs ws = hs"
| "blocks (Suc n) hs ws = blocks n (compress hs (take 16 ws)) (drop 16 ws)"

definition sha256 :: "byte list \<Rightarrow> byte list" where
  "sha256 m = (let ws = be_words (pad m)
               in concat (map (be_bytes 4) (blocks (length ws div 16) H0 ws)))"

section \<open>The proof verifier\<close>

text \<open>
  \<open>verifyPreimage\<close> of the middleware. The body sits in a \<open>try\<close> whose handler returns
  \<open>false\<close>; on two strings neither \<open>Buffer.from\<close>, the digest nor \<open>toLowerCase\<close> throws,
  so the handler is never entered and the result is the comparison.
\<close>

definition verifyPreimage :: "string \<Rightarrow> string \<Rightarrow> bool" where
  "verifyPreimage preimage paymentHash =
     (let hash = toHex (sha256 (hexDecode preimage))
      in hash = toLowerCase paymentHash)"

section \<open>The challenge and authorization headers\<close>

abbreviation dquote :: char where
  "dquote \<equiv> CHR 0x22"

definition startsWith :: "string \<Rightarrow> string \<Rightarrow> bool" where
  "startsWith s p = (take (length p) s = p)"



definition buildWwwAuthenticateHeader :: "string \<Rightarrow> string \<Rightarrow> string" where
  "buildWwwAuthenticateHeader invoice macaroon =
     ''L402 invoice='' @ [dquote] @ invoice @ [dquote]
       @ '', macaroon='' @ [dquote] @ macaroon @ [dquote]"

text \<open>
  The client's two regular expressions, \<open>/invoice="([^"]+)"/i\<close> and
  \<open>/macaroon="([^"]+)"/i\<close>, applied with \<open>String.prototype.match\<close>. Such an expression is
  a literal text compared without regard to letter case, then one or more characters other
  than the quote, then a quote. \<open>matchLiteral\<close> consumes the literal at the head of the
  input; \<open>matchAt\<close> is a match that starts at the head of the input and yields the captured
  group (the class is greedy, and giving characters back cannot help, since the character
  after a shorter run is not a quote); \<open>matchQuoted\<close> is the leftmost match, which is the
  one \<open>match\<close> returns.
\<close>

fun matchLiteral :: "string \<Rightarrow> string \<Rightarrow> string option" where
  "matchLiteral [] s = Some s"
| "matchLiteral (p # ps) [] = None"
| "matchLiteral (p # ps) (c # cs) =
     (if lowerChar p = lowerChar c then matchLiteral ps cs else None)"

definition matchAt :: "string \<Rightarrow> string \<Rightarrow> string option" where
  "matchAt lit s =
     (case matchLiteral lit s of
        None \<Rightarrow> None
      | Some r \<Rightarrow>
          let g = takeWhile (\<lambda>c. c \<noteq> dquote) r
          in if g \<noteq> [] \<and> length g < length r then Some g else None)"

fun matchQuoted :: "string \<Rightarrow> string \<Rightarrow> string option" where
  "matchQuoted lit [] = matchAt lit []"
| "matchQuoted lit (c # cs) =
     (case matchAt lit (c # cs) of
        Some g \<Rightarrow> Some g
      | None \<Rightarrow> matchQuoted lit cs)"

text \<open>
  \<open>parseWwwAuthenticate\<close> of the client. The argument is \<open>None\<close> when the response has no
  such header; the result is the pair \<open>(invoice, macaroon)\<close>.
\<close>

definition parseWwwAuthenticate :: "string option \<Rightarrow> (string \<times> string) option" where
  "parseWwwAuthenticate header =
     (case header of
        None \<Rightarrow> None
      | Some h \<Rightarrow>
          if h = [] then None
          else let trimmed = trim h in
            if \<not> startsWith trimmed ''L402 '' \<and> \<not> startsWith trimmed ''l402 '' then None
            else let rest = drop 5 trimmed in
              (case matchQuoted (''invoice='' @ [dquote]) rest of
                 None \<Rightarrow> None
               | Some invoice \<Rightarrow>
                   (case matchQuoted (''macaroon='' @ [dquote]) rest of
                      None \<Rightarrow> None
                    | Some macaroon \<Rightarrow> Some (invoice, macaroon))))"

section \<open>The server gate\<close>

text \<open>The decimal text of a number, as a template literal prints it.\<close>

function showNat :: "nat \<Rightarrow> string" where
  "showNat n = (if n < 10 then [char_of (48 + n)]
                else showNat (n div 10) @ [char_of (48 + n mod 10)])"
  by pat_completeness auto
termination
  by (relation "measure id") auto

text \<open>
  One record \<open>{invoice, amountSats, createdAt, expiryMs}\<close> of the table \<open>pendingHashes\<close>
  (the fields carry the prefix \<open>p_\<close>). The table is a \<open>Map\<close> from payment hash to record:
  an association list in insertion order, where \<open>Map.set\<close> is \<^const>\<open>AList.update\<close>
  (an existing key keeps its place, a new key goes to the end).
\<close>

record pending =
  p_invoice :: string
  p_amountSats :: nat
  p_createdAt :: nat
  p_expiryMs :: int

text \<open>
  What the middleware does to the response: it calls \<open>next()\<close> after setting \<open>req.l402\<close> to
  \<open>{paymentHash, preimage, amountSats}\<close>; or it answers 402 with the \<open>WWW-Authenticate\<close>
  header and a JSON body \<open>{amountSats, description, invoice, paymentHash}\<close>; or it
  answers 500.
\<close>

datatype outcome =
    Next string string nat
  | PaymentRequired string nat string string string
  | InternalError

text \<open>
  \<open>wallet.createInvoice({amountSats, description, expiry})\<close>: the pair
  \<open>(invoice, paymentHash)\<close> of its result, \<open>None\<close> when the call throws or rejects.
\<close>

type_synonym createInvoice = "nat \<Rightarrow> string \<Rightarrow> int \<Rightarrow> (string \<times> string) option"

text \<open>
  Step 3 of the middleware, the \<open>try\<close> block that issues a challenge.
  \<open>invoiceDescription\<close> is the expression
  \<open>description || `L402 payment: ${amountSats} sats`\<close>, which the block evaluates twice.
  The clock is read twice: \<open>createdAt\<close> is the reading \<open>Date.now()\<close> that goes into the
  record, \<open>now\<close> the later reading \<open>const now = Date.now()\<close> of the sweep, which is made
  when the table holds more than 100 records. \<open>expirySeconds\<close> is an integer: the
  factory does not check it, so it may be zero or negative. The sweep's test
  \<open>now - entry.createdAt > entry.expiryMs\<close> is taken over the integers.
\<close>

definition invoiceDescription :: "nat \<Rightarrow> string option \<Rightarrow> string" where
  "invoiceDescription amountSats description =
     (case description of
        Some d \<Rightarrow> if d \<noteq> [] then d
                  else ''L402 payment: '' @ showNat amountSats @ '' sats''
      | None \<Rightarrow> ''L402 payment: '' @ showNat amountSats @ '' sats'')"

definition issueChallenge ::
  "createInvoice \<Rightarrow> nat \<Rightarrow> string option \<Rightarrow> int \<Rightarrow> nat \<Rightarrow> nat \<Rightarrow> (string \<times> pending) list
     \<Rightarrow> outcome \<times> (string \<times> pending) list" where
  "issueChallenge createInvoice amountSats description expirySeconds createdAt now pendingHashes =
     (let descr = invoiceDescription amountSats description
      in case createInvoice amountSats descr expirySeconds of
           None \<Rightarrow> (InternalError, pendingHashes)
         | Some (invoice, paymentHash) \<Rightarrow>
             let stored = AList.update paymentHash
                            \<lparr>p_invoice = invoice, p_amountSats = amountSats,
                             p_createdAt = createdAt, p_expiryMs = expirySeconds * 1000\<rparr>
                            pendingHashes;
                 swept = (if length stored > 100
                          then filter (\<lambda>(hash, entry).
                                 \<not> (int now - int (p_createdAt entry) > p_expiryMs entry)) stored
                          else stored);
                 wwwAuth = buildWwwAuthenticateHeader invoice paymentHash
             in (PaymentRequired wwwAuth amountSats descr invoice paymentHash, swept))"


section \<open>The credential cache\<close>

text \<open>
  The credential handed to \<open>set\<close> is \<open>{macaroon, preimage, expiresAt}\<close> with \<open>expiresAt\<close>
  optional (fields with the prefix \<open>c_\<close>); a stored entry is
  \<open>{macaroon, preimage, expiresAt, storedAt}\<close> (prefix \<open>e_\<close>). Times are milliseconds.
\<close>

record credential =
  c_macaroon :: string
  c_preimage :: string
  c_expiresAt :: "nat option"

record entry =
  e_macaroon :: string
  e_preimage :: string
  e_expiresAt :: nat
  e_storedAt :: nat

text \<open>
  The object: its \<open>Map\<close> (\<open>cache\<close>) as an association list in insertion order, and its
  two settings. The interval timer of the constructor only calls \<open>cleanup\<close>; it is not
  part of the state.
\<close>

record CredentialCache =
  cache :: "(string \<times> entry) list"
  maxSize :: nat
  defaultTtlMs :: nat

text \<open>The constructor: \<open>opts.maxSize || 1000\<close> and \<open>opts.defaultTtlMs || 3600000\<close>.\<close>

definition newCredentialCache :: "nat option \<Rightarrow> nat option \<Rightarrow> CredentialCache" where
  "newCredentialCache optMaxSize optDefaultTtlMs =
     \<lparr>cache = [],
      maxSize = (case optMaxSize of Some n \<Rightarrow> if n \<noteq> 0 then n else 1000 | None \<Rightarrow> 1000),
      defaultTtlMs = (case optDefaultTtlMs of
                        Some t \<Rightarrow> if t \<noteq> 0 then t else 3600000
                      | None \<Rightarrow> 3600000)\<rparr>"

text \<open>
  \<open>key(url, method)\<close>. The parameter \<open>urlOf\<close> stands for the platform's
  \<open>new URL(url)\<close> followed by \<open>origin + pathname\<close>: \<open>None\<close> when the constructor throws.
\<close>

definition key :: "(string \<Rightarrow> string option) \<Rightarrow> string \<Rightarrow> string option \<Rightarrow> string option" where
  "key urlOf url method =
     (case urlOf url of
        None \<Rightarrow> None
      | Some normalized \<Rightarrow>
          Some (case method of
                  Some m \<Rightarrow> if m \<noteq> [] then m @ '':'' @ normalized else normalized
                | None \<Rightarrow> normalized))"

text \<open>
  The bodies of \<open>set\<close>, \<open>get\<close> and \<open>invalidate\<close> once the key \<open>k\<close> is computed. \<open>now\<close> is
  \<open>Date.now()\<close>, one reading for each call.
\<close>

definition setAt :: "CredentialCache \<Rightarrow> string \<Rightarrow> credential \<Rightarrow> nat \<Rightarrow> CredentialCache" where
  "setAt c k credential now =
     (let m = (if length (cache c) \<ge> maxSize c
               then (case cache c of
                       [] \<Rightarrow> []
                     | (oldest, _) # _ \<Rightarrow> AList.delete oldest (cache c))
               else cache c)
      in c\<lparr>cache :=
             AList.update k
               \<lparr>e_macaroon = c_macaroon credential,
                e_preimage = c_preimage credential,
                e_expiresAt = (case c_expiresAt credential of
                                 Some e \<Rightarrow> if e \<noteq> 0 then e else now + defaultTtlMs c
                               | None \<Rightarrow> now + defaultTtlMs c),
                e_storedAt = now\<rparr> m\<rparr>)"

definition getAt ::
  "CredentialCache \<Rightarrow> string \<Rightarrow> nat \<Rightarrow> (string \<times> string) option \<times> CredentialCache" where
  "getAt c k now =
     (case map_of (cache c) k of
        None \<Rightarrow> (None, c)
      | Some entry \<Rightarrow>
          if e_expiresAt entry \<noteq> 0 \<and> now > e_expiresAt entry
          then (None, c\<lparr>cache := AList.delete k (cache c)\<rparr>)
          else (Some (e_macaroon entry, e_preimage entry), c))"

definition invalidateAt :: "CredentialCache \<Rightarrow> string \<Rightarrow> CredentialCache" where
  "invalidateAt c k = c\<lparr>cache := AList.delete k (cache c)\<rparr>"

text \<open>The methods themselves: \<open>None\<close> when \<open>key\<close> throws, which leaves the cache as it was.\<close>

definition set_c ::
  "(string \<Rightarrow> string option) \<Rightarrow> CredentialCache \<Rightarrow> string \<Rightarrow> credential \<Rightarrow> string option
     \<Rightarrow> nat \<Rightarrow> CredentialCache option" where
  "set_c urlOf c url credential method now =
     (case key urlOf url method of
        None \<Rightarrow> None
      | Some k \<Rightarrow> Some (setAt c k credential now))"

definition get ::
  "(string \<Rightarrow> string option) \<Rightarrow> CredentialCache \<Rightarrow> string \<Rightarrow> string option \<Rightarrow> nat
     \<Rightarrow> ((string \<times> string) option \<times> CredentialCache) option" where
  "get urlOf c url method now =
     (case key urlOf url method of
        None \<Rightarrow> None
      | Some k \<Rightarrow> Some (getAt c k now))"

definition invalidate ::
  "(string \<Rightarrow> string option) \<Rightarrow> CredentialCache \<Rightarrow> string \<Rightarrow> string option
     \<Rightarrow> CredentialCache option" where
  "invalidate urlOf c url method =
     (case key urlOf url method of
        None \<Rightarrow> None
      | Some k \<Rightarrow> Some (invalidateAt c k))"

definition clear :: "CredentialCache \<Rightarrow> CredentialCache" where
  "clear c = c\<lparr>cache := []\<rparr>"

definition cleanup :: "CredentialCache \<Rightarrow> nat \<Rightarrow> CredentialCache" where
  "cleanup c now =
     c\<lparr>cache := filter (\<lambda>(k, entry). \<not> (e_expiresAt entry \<noteq> 0 \<and> now > e_expiresAt entry))
                  (cache c)\<rparr>"

text \<open>
  A sequence of calls on one cache, each with the key it computed and the clock's
  reading at the call.
\<close>

datatype cacheOp =
    Set string credential nat
  | Get string nat
  | Invalidate string
  | Clear
  | Cleanup nat

fun applyOp :: "CredentialCache \<Rightarrow> cacheOp \<Rightarrow> CredentialCache" where
  "applyOp c (Set k credential now) = setAt c k credential now"
| "applyOp c (Get k now) = snd (getAt c k now)"
| "applyOp c (Invalidate k) = invalidateAt c k"
| "applyOp c Clear = clear c"
| "applyOp c (Cleanup now) = cleanup c now"

definition runOps :: "CredentialCache \<Rightarrow> cacheOp list \<Rightarrow> CredentialCache" where
  "runOps c ops = foldl applyOp c ops"

text \<open>
  For stating the capacity property: the insertions of a sequence of calls, in order;
  a call that is either an insertion without an explicit expiry whose entry is still
  alive at time \<open>T\<close>, or a lookup no later than \<open>T\<close>; and the entry that an insertion
  without an explicit expiry stores under its key.
\<close>

fun setsOf :: "cacheOp list \<Rightarrow> (string \<times> credential \<times> nat) list" where
  "setsOf [] = []"
| "setsOf (Set k credential now # ops) = (k, credential, now) # setsOf ops"
| "setsOf (_ # ops) = setsOf ops"

fun plainOp :: "nat \<Rightarrow> nat \<Rightarrow> cacheOp \<Rightarrow> bool" where
  "plainOp ttl T (Set k credential now) = (c_expiresAt credential = None \<and> T \<le> now + ttl)"
| "plainOp ttl T (Get k now) = (now \<le> T)"
| "plainOp ttl T _ = False"

definition stored :: "nat \<Rightarrow> string \<times> credential \<times> nat \<Rightarrow> string \<times> entry" where
  "stored ttl x =
     (case x of (k, credential, now) \<Rightarrow>
        (k, \<lparr>e_macaroon = c_macaroon credential, e_preimage = c_preimage credential,
             e_expiresAt = now + ttl, e_storedAt = now\<rparr>))"

text \<open>
  What holds of every cache built by the constructor and changed by its methods only:
  the keys of the \<open>Map\<close> are distinct, no stored expiry is zero, and the default
  lifetime is positive.
\<close>

definition entriesValid :: "CredentialCache \<Rightarrow> bool" where
  "entriesValid c = (distinct (map fst (cache c))
     \<and> list_all (\<lambda>x. 0 < e_expiresAt (snd x)) (cache c) \<and> 0 < defaultTtlMs c)"

section \<open>The client orchestrator\<close>

text \<open>
  What \<open>l402Fetch\<close> reads of a response: its status, its \<open>www-authenticate\<close> header
  (\<open>None\<close> when absent) and the \<open>amountSats\<close> field of its JSON body (\<open>None\<close> when the body
  is not JSON or has no such field).
\<close>

record response =
  status :: nat
  wwwAuthenticate :: "string option"
  jsonAmountSats :: "nat option"

text \<open>
  The outside world is a state \<open>'w\<close> that every external call may read and change.
  \<^item> \<open>decodeInvoice\<close> is \<open>None\<close> when \<open>wallet.decodeInvoice\<close> is not a function. A call
    yields \<open>None\<close> when it throws (or returns \<open>null\<close> or \<open>undefined\<close>, so that reading
    \<open>.amountSats\<close> throws), else the \<open>amountSats\<close> of its result: a number of satoshis,
    \<open>null\<close>, or \<open>undefined\<close> when the result has no such field (as with the Promise
    that an asynchronous \<open>decodeInvoice\<close> returns, which the code does not await).
  \<^item> \<open>payInvoice\<close> yields \<open>None\<close> when it rejects, else the \<open>preimage\<close> of its result
    (the inner \<open>None\<close> when the result has none).
\<close>

datatype jsValue =
    JsNumber nat
  | JsNull
  | JsUndefined

record 'w wallet =
  decodeInvoice :: "(string \<Rightarrow> 'w \<Rightarrow> jsValue option \<times> 'w) option"
  payInvoice :: "string \<Rightarrow> 'w \<Rightarrow> string option option \<times> 'w"

text \<open>
  The platform: \<open>fetch(url, {...fetchOpts, headers})\<close> as a function of the URL and of the
  \<open>Authorization\<close> header the orchestrator sets (\<open>None\<close> for the caller's own options
  unchanged), yielding \<open>None\<close> when the promise rejects; \<open>Date.now()\<close>; and the URL parser.
\<close>

record 'w env =
  fetch :: "string \<Rightarrow> string option \<Rightarrow> 'w \<Rightarrow> response option \<times> 'w"
  dateNow :: "'w \<Rightarrow> nat"
  urlOf :: "string \<Rightarrow> string option"

text \<open>
  The options of one call. \<open>onPayment\<close> receives \<open>{invoice, preimage, amountSats}\<close> and
  yields \<open>False\<close> when it throws; \<open>httpMethod\<close> is the local \<open>method\<close>, that is
  \<open>(fetchOpts.method || 'GET').toUpperCase()\<close>.
\<close>

record 'w opts =
  httpMethod :: string
  wallet :: "'w wallet option"
  maxAmountSats :: "nat option"
  onPayment :: "(string \<Rightarrow> string \<Rightarrow> jsValue \<Rightarrow> 'w \<Rightarrow> bool \<times> 'w) option"

text \<open>The external calls made, in order, with what they were given and returned.\<close>

datatype event =
    Fetch "string option" "response option"
  | DecodeInvoice string
  | PayInvoice string
  | OnPayment string string jsValue

text \<open>
  The ways the promise of \<open>l402Fetch\<close> rejects: the two errors it raises itself (the
  amount above the cap, with both numbers; the payment without a preimage) and the ones
  it lets through.
\<close>

datatype error =
    AmountExceeded nat nat
  | NoPreimage
  | InvalidURL
  | FetchRejected
  | PaymentRejected
  | CallbackThrew

text \<open>
  The state threaded through a call: the world, the cache in use
  (\<open>credentialCache || (useCache ? getGlobalCache() : null)\<close>, \<open>None\<close> for \<open>null\<close>) and the
  calls made so far.
\<close>

record 'w state =
  world :: 'w
  cacheInstance :: "CredentialCache option"
  trace :: "event list"

definition doFetch ::
  "'w env \<Rightarrow> string \<Rightarrow> string option \<Rightarrow> 'w state \<Rightarrow> response option \<times> 'w state" where
  "doFetch E url authorization s =
     (let (r, w) = fetch E url authorization (world s)
      in (r, s\<lparr>world := w, trace := trace s @ [Fetch authorization r]\<rparr>))"

text \<open>The header value \<open>`L402 ${macaroon}:${preimage}`\<close>.\<close>

definition authorization :: "string \<Rightarrow> string \<Rightarrow> string" where
  "authorization macaroon preimage = ''L402 '' @ macaroon @ '':'' @ preimage"

text \<open>
  Step 0: a cached credential is tried first. The result is \<open>Some\<close> when the call ends
  here, \<open>None\<close> when it goes on to step 1.
\<close>

definition tryCached ::
  "'w env \<Rightarrow> string \<Rightarrow> 'w opts \<Rightarrow> 'w state \<Rightarrow> (error + response) option \<times> 'w state" where
  "tryCached E url opts s =
     (case cacheInstance s of
        None \<Rightarrow> (None, s)
      | Some c \<Rightarrow>
          (case get (urlOf E) c url (Some (httpMethod opts)) (dateNow E (world s)) of
             None \<Rightarrow> (Some (Inl InvalidURL), s)
           | Some (cached, c1) \<Rightarrow>
               let s1 = s\<lparr>cacheInstance := Some c1\<rparr> in
               (case cached of
                  None \<Rightarrow> (None, s1)
                | Some (macaroon, preimage) \<Rightarrow>
                    let (r, s2) = doFetch E url (Some (authorization macaroon preimage)) s1 in
                    (case r of
                       None \<Rightarrow> (Some (Inl FetchRejected), s2)
                     | Some cachedResponse \<Rightarrow>
                         if status cachedResponse \<noteq> 401 \<and> status cachedResponse \<noteq> 402
                         then (Some (Inr cachedResponse), s2)
                         else (case invalidate (urlOf E) c1 url (Some (httpMethod opts)) of
                                 None \<Rightarrow> (Some (Inl InvalidURL), s2)
                               | Some c2 \<Rightarrow> (None, s2\<lparr>cacheInstance := Some c2\<rparr>))))))"

text \<open>
  The block \<open>let amountSats = null; try { if (typeof wallet.decodeInvoice === 'function')
  amountSats = wallet.decodeInvoice(invoice).amountSats } catch { }\<close>, which steps 5 and
  7 share. The result is the value of the local \<open>amountSats\<close>: still \<open>null\<close> when there is
  no such function or the call throws.
\<close>

definition decodeAmount ::
  "'w wallet \<Rightarrow> string \<Rightarrow> 'w state \<Rightarrow> jsValue \<times> 'w state" where
  "decodeAmount wal invoice s =
     (case decodeInvoice wal of
        None \<Rightarrow> (JsNull, s)
      | Some decode \<Rightarrow>
          let (r, w) = decode invoice (world s);
              s1 = s\<lparr>world := w, trace := trace s @ [DecodeInvoice invoice]\<rparr>
          in (case r of
                None \<Rightarrow> (JsNull, s1)
              | Some amountSats \<Rightarrow> (amountSats, s1)))"

text \<open>
  Step 5, the amount: the wallet's decoding first, then, only if \<open>amountSats === null\<close>,
  the body's field if it is truthy. An \<open>undefined\<close> from the wallet is not \<open>null\<close>, so the
  body is not read then.
\<close>

definition determineAmount ::
  "'w wallet \<Rightarrow> string \<Rightarrow> response \<Rightarrow> 'w state \<Rightarrow> jsValue \<times> 'w state" where
  "determineAmount wal invoice resp s =
     (let (amountSats, s1) = decodeAmount wal invoice s
      in case amountSats of
           JsNull \<Rightarrow>
             ((case jsonAmountSats resp of
                 Some b \<Rightarrow> if b \<noteq> 0 then JsNumber b else JsNull
               | None \<Rightarrow> JsNull), s1)
         | JsNumber a \<Rightarrow> (JsNumber a, s1)
         | JsUndefined \<Rightarrow> (JsUndefined, s1))"

text \<open>Step 7: the callback, \<open>False\<close> when it throws.\<close>

definition notify ::
  "'w opts \<Rightarrow> 'w wallet \<Rightarrow> string \<Rightarrow> string \<Rightarrow> 'w state \<Rightarrow> bool \<times> 'w state" where
  "notify opts wal invoice preimage s =
     (case onPayment opts of
        None \<Rightarrow> (True, s)
      | Some callback \<Rightarrow>
          let (amountSats, s1) = decodeAmount wal invoice s;
              (ok, w) = callback invoice preimage amountSats (world s1)
          in (ok, s1\<lparr>world := w,
                     trace := trace s1 @ [OnPayment invoice preimage amountSats]\<rparr>))"

text \<open>Step 8: the credential goes to the cache with an expiry one hour ahead.\<close>

definition remember ::
  "'w env \<Rightarrow> string \<Rightarrow> string \<Rightarrow> string \<Rightarrow> string \<Rightarrow> 'w state \<Rightarrow> 'w state option" where
  "remember E url meth macaroon preimage s =
     (case cacheInstance s of
        None \<Rightarrow> Some s
      | Some c \<Rightarrow>
          let expiresAt = dateNow E (world s) + 3600000 in
          (case set_c (urlOf E) c url
                  \<lparr>c_macaroon = macaroon, c_preimage = preimage, c_expiresAt = Some expiresAt\<rparr>
                  (Some meth) (dateNow E (world s)) of
             None \<Rightarrow> None
           | Some c1 \<Rightarrow> Some (s\<lparr>cacheInstance := Some c1\<rparr>)))"

text \<open>Steps 6 to 9: pay, call back, remember, retry once.\<close>

definition settle ::
  "'w env \<Rightarrow> string \<Rightarrow> 'w opts \<Rightarrow> 'w wallet \<Rightarrow> string \<Rightarrow> string \<Rightarrow> 'w state
     \<Rightarrow> (error + response) \<times> 'w state" where
  "settle E url opts wal invoice macaroon s =
     (let (payResult, w) = payInvoice wal invoice (world s);
          s1 = s\<lparr>world := w, trace := trace s @ [PayInvoice invoice]\<rparr>
      in case payResult of
           None \<Rightarrow> (Inl PaymentRejected, s1)
         | Some None \<Rightarrow> (Inl NoPreimage, s1)
         | Some (Some preimage) \<Rightarrow>
             if preimage = [] then (Inl NoPreimage, s1)
             else let (ok, s2) = notify opts wal invoice preimage s1 in
               if \<not> ok then (Inl CallbackThrew, s2)
               else (case remember E url (httpMethod opts) macaroon preimage s2 of
                       None \<Rightarrow> (Inl InvalidURL, s2)
                     | Some s3 \<Rightarrow>
                         let (r, s4) = doFetch E url (Some (authorization macaroon preimage)) s3
                         in (case r of
                               None \<Rightarrow> (Inl FetchRejected, s4)
                             | Some retried \<Rightarrow> (Inr retried, s4))))"

text \<open>
  Steps 1 to 5: the bare request, the challenge and the spending cap. The test
  \<open>amountSats !== null && amountSats > maxAmountSats\<close> is false for \<open>null\<close> and for
  \<open>undefined\<close>.
\<close>

definition payCycle ::
  "'w env \<Rightarrow> string \<Rightarrow> 'w opts \<Rightarrow> 'w state \<Rightarrow> (error + response) \<times> 'w state" where
  "payCycle E url opts s =
     (let (r, s1) = doFetch E url None s
      in case r of
           None \<Rightarrow> (Inl FetchRejected, s1)
         | Some resp \<Rightarrow>
             if status resp \<noteq> 402 then (Inr resp, s1)
             else (case wallet opts of
                     None \<Rightarrow> (Inr resp, s1)
                   | Some wal \<Rightarrow>
                       (case parseWwwAuthenticate (wwwAuthenticate resp) of
                          None \<Rightarrow> (Inr resp, s1)
                        | Some (invoice, macaroon) \<Rightarrow>
                            (case maxAmountSats opts of
                               None \<Rightarrow> settle E url opts wal invoice macaroon s1
                             | Some cap \<Rightarrow>
                                 let (amountSats, s2) = determineAmount wal invoice resp s1 in
                                 (case amountSats of
                                    JsNumber a \<Rightarrow>
                                      if a > cap then (Inl (AmountExceeded a cap), s2)
                                      else settle E url opts wal invoice macaroon s2
                                  | JsNull \<Rightarrow> settle E url opts wal invoice macaroon s2
                                  | JsUndefined \<Rightarrow>
                                      settle E url opts wal invoice macaroon s2)))))"

definition l402Fetch ::
  "'w env \<Rightarrow> string \<Rightarrow> 'w opts \<Rightarrow> 'w state \<Rightarrow> (error + response) \<times> 'w state" where
  "l402Fetch E url opts s =
     (case tryCached E url opts s of
        (Some result, s1) \<Rightarrow> (result, s1)
      | (None, s1) \<Rightarrow> payCycle E url opts s1)"

text \<open>Counting in a trace: the payments, and the requests sent from the first payment on.\<close>

fun isPay :: "event \<Rightarrow> bool" where
  "isPay (PayInvoice _) = True"
| "isPay _ = False"

fun isFetch :: "event \<Rightarrow> bool" where
  "isFetch (Fetch _ _) = True"
| "isFetch _ = False"

definition payments :: "event list \<Rightarrow> nat" where
  "payments evs = length (filter isPay evs)"

definition fetchesAfterPay :: "event list \<Rightarrow> nat" where
  "fetchesAfterPay evs = length (filter isFetch (dropWhile (\<lambda>e. \<not> isPay e) evs))"

text \<open>
  What one call may add to the trace: at most one payment, at most one request from the
  payment on, and, when a payment was made and the last event is a request that was
  answered, that answer is the result of the call.
\<close>

definition oneCycle :: "event list \<Rightarrow> (error + response) \<Rightarrow> bool" where
  "oneCycle evs result =
     (payments evs \<le> 1 \<and> fetchesAfterPay evs \<le> 1
      \<and> (\<forall>a resp. payments evs = 1 \<and> evs \<noteq> [] \<and> last evs = Fetch a (Some resp)
            \<longrightarrow> result = Inr resp))"

text \<open>
  What the wallet's \<open>decodeInvoice\<close> leaves in the local \<open>amountSats\<close> in world \<open>w\<close>:
  \<open>null\<close> when the wallet has no such function, when the call throws, or when it
  yields \<open>null\<close>.
\<close>

definition walletAmount :: "'w wallet \<Rightarrow> string \<Rightarrow> 'w \<Rightarrow> jsValue" where
  "walletAmount wal invoice w =
     (case decodeInvoice wal of
        None \<Rightarrow> JsNull
      | Some decode \<Rightarrow>
          (case fst (decode invoice w) of
             None \<Rightarrow> JsNull
           | Some amountSats \<Rightarrow> amountSats))"

section \<open>Scenarios of the repository's tests\<close>

text \<open>
  The answer of the gate to a request without proof, as the client reads it; a server
  that gives this answer to every request, with a clock standing at 1000 and every URL
  well formed; and the two wallets of the test file: \<open>mockWallet\<close>, which decodes
  \<open>lnbc500n\<dots>\<close> to 50 and \<open>lnbc250n\<dots>\<close> to 25 and pays with the known preimage, and
  \<open>fakeWallet\<close>, which decodes every invoice to 25 and pays with the preimage \<open>def456\<close>.
  \<open>asyncWallet\<close> is \<open>mockWallet\<close> with an asynchronous \<open>decodeInvoice\<close>: the call yields
  a Promise, whose \<open>amountSats\<close> is \<open>undefined\<close>.
\<close>

definition challengeResponse :: "string \<Rightarrow> string \<Rightarrow> nat \<Rightarrow> response" where
  "challengeResponse invoice paymentHash amountSats =
     \<lparr>status = 402,
      wwwAuthenticate = Some (buildWwwAuthenticateHeader invoice paymentHash),
      jsonAmountSats = Some amountSats\<rparr>"

definition paywall :: "response \<Rightarrow> unit env" where
  "paywall r =
     \<lparr>fetch = (\<lambda>url authorization w. (Some r, w)),
      dateNow = (\<lambda>w. 1000),
      urlOf = (\<lambda>url. Some url)\<rparr>"

definition mockWallet :: "unit wallet" where
  "mockWallet =
     \<lparr>decodeInvoice = Some (\<lambda>inv w.
        (Some (if startsWith inv ''lnbc500n'' then JsNumber 50
               else if startsWith inv ''lnbc250n'' then JsNumber 25
               else JsNull), w)),
      payInvoice = (\<lambda>inv w.
        (Some (Some ''0000000000000000000000000000000000000000000000000000000000000001''), w))\<rparr>"

definition fakeWallet :: "unit wallet" where
  "fakeWallet =
     \<lparr>decodeInvoice = Some (\<lambda>inv w. (Some (JsNumber 25), w)),
      payInvoice = (\<lambda>inv w. (Some (Some ''def456''), w))\<rparr>"

definition asyncWallet :: "unit wallet" where
  "asyncWallet =
     \<lparr>decodeInvoice = Some (\<lambda>inv w. (Some JsUndefined, w)),
      payInvoice = (\<lambda>inv w.
        (Some (Some ''0000000000000000000000000000000000000000000000000000000000000001''), w))\<rparr>"

section \<open>Properties of the hexadecimal codec\<close>

lemma unhex_hexDigit: "n < 16 \<Longrightarrow> unhex (hexDigit n) = Some n"
  by (auto simp: unhex_def hexDigit_def Let_def)

lemma unhex_hexDigitUpper: "n < 16 \<Longrightarrow> unhex (hexDigitUpper n) = Some n"
  by (auto simp: unhex_def hexDigitUpper_def Let_def)

lemma lowerChar_hexDigit: "n < 16 \<Longrightarrow> lowerChar (hexDigit n) = hexDigit n"
  by (auto simp: lowerChar_def hexDigit_def Let_def)

lemma lowerChar_hexDigitUpper: "n < 16 \<Longrightarrow> lowerChar (hexDigitUpper n) = hexDigit n"
  by (auto simp: lowerChar_def hexDigit_def hexDigitUpper_def Let_def)

lemma unat_high_nibble: "unat (drop_bit 4 (b::byte)) = unat b div 16"
  by (simp add: unat_drop_bit_eq drop_bit_eq_div unat_div)

lemma unat_low_nibble: "unat ((b::byte) AND 15) = unat b mod 16"
proof -
  have "(15 :: byte) = mask 4" by (simp add: mask_eq_exp_minus_1)
  then have "b AND 15 = take_bit 4 b" by (simp add: take_bit_eq_mask)
  then show ?thesis by (simp add: take_bit_eq_mod unat_mod)
qed

lemma high_nibble_less: "unat (drop_bit 4 (b::byte)) < 16"
proof -
  have "unat b < 256" using unsigned_less[of b] by simp
  then show ?thesis unfolding unat_high_nibble by simp
qed

lemma low_nibble_less: "unat ((b::byte) AND 15) < 16"
  by (simp add: unat_low_nibble)

lemma byte_of_nibbles: "of_nat (16 * unat (drop_bit 4 b) + unat (b AND 15)) = (b::byte)"
proof -
  have "16 * unat (drop_bit 4 b) + unat (b AND 15) = unat b"
    unfolding unat_high_nibble unat_low_nibble by simp
  then show ?thesis by simp
qed

lemma byte_of_nibbles_word: "16 * drop_bit 4 b + (b AND 15) = (b::byte)"
  using byte_of_nibbles [of b] by simp

lemma hexDecode_hexByte:
  "hexDecode (hexByte hexDigit b @ cs) = b # hexDecode cs"
  "hexDecode (hexByte hexDigitUpper b @ cs) = b # hexDecode cs"
  by (simp_all add: hexByte_def unhex_hexDigit unhex_hexDigitUpper
      high_nibble_less low_nibble_less byte_of_nibbles_word)

lemma hexDecode_toHex: "hexDecode (toHex bs) = bs"
  by (induction bs) (simp_all add: toHex_def hexDecode_hexByte)

lemma hexDecode_toHexUpper: "hexDecode (toHexUpper bs) = bs"
  by (induction bs) (simp_all add: toHexUpper_def hexDecode_hexByte)

lemma toLowerCase_toHex: "toLowerCase (toHex bs) = toHex bs"
  by (induction bs)
    (simp_all add: toLowerCase_def toHex_def hexByte_def lowerChar_hexDigit
      high_nibble_less low_nibble_less)

lemma toLowerCase_toHexUpper: "toLowerCase (toHexUpper bs) = toHex bs"
  by (induction bs)
    (simp_all add: toLowerCase_def toHex_def toHexUpper_def hexByte_def lowerChar_hexDigitUpper
      high_nibble_less low_nibble_less)

lemma toHex_inject: "toHex a = toHex b \<longleftrightarrow> a = b"
  by (metis hexDecode_toHex)

lemma length_toHex: "length (toHex bs) = 2 * length bs"
  by (induction bs) (simp_all add: toHex_def hexByte_def)

section \<open>The embedding of SHA-256 against a published test vector\<close>

text \<open>The digest of the empty message, as FIPS 180-4's examples and Node give it.\<close>

lemma sha256_empty:
  "toHex (sha256 []) = ''e3b0c44298fc1c149afbf4c8996fb92427ae41e4649b934ca495991b7852b855''"
  by code_simp

section \<open>Properties of the proof verifier\<close>

text \<open>
  C2. For every byte string \<open>s\<close>, \<open>verifyPreimage\<close> accepts the hexadecimal text of \<open>s\<close>
  against the hexadecimal digest of \<open>s\<close>, whether the fingerprint (or the secret) is
  written in lower or in upper case; and against the digest of a byte string \<open>t\<close> it
  answers true exactly when \<open>s\<close> and \<open>t\<close> have the same digest, so that for \<open>s \<noteq> t\<close> it
  answers false unless the two collide.
\<close>

theorem verifyPreimage_correct:
  "verifyPreimage (toHex s) (toHex (sha256 t)) = (sha256 s = sha256 t)
   \<and> verifyPreimage (toHex s) (toHexUpper (sha256 t)) = (sha256 s = sha256 t)
   \<and> verifyPreimage (toHexUpper s) (toHex (sha256 t)) = (sha256 s = sha256 t)
   \<and> verifyPreimage (toHexUpper s) (toHexUpper (sha256 t)) = (sha256 s = sha256 t)"
  by (simp add: verifyPreimage_def hexDecode_toHex hexDecode_toHexUpper
      toLowerCase_toHex toLowerCase_toHexUpper toHex_inject)

theorem verifyPreimage_correct_witness:
  "verifyPreimage ''01'' (toHex (sha256 [1])) \<and> verifyPreimage ''01'' (toHexUpper (sha256 [1]))
   \<and> verifyPreimage ''0a'' (toHex (sha256 [2])) = (sha256 [10] = sha256 [2])"
proof -
  have a: "toHex [1] = ''01''" "toHex [10] = ''0a''" by code_simp+
  show ?thesis
    using verifyPreimage_correct [of "[1]" "[1]"] verifyPreimage_correct [of "[10]" "[2]"]
    unfolding a by simp
qed

text \<open>
  C3. The claim is that a secret which is not well-formed hexadecimal text is always
  rejected. \<open>Buffer.from\<close> does not fail on such text, it stops decoding: the secret
  \<open>zz\<close> decodes to the empty buffer, and \<open>verifyPreimage\<close> accepts it against the digest of
  the empty message.
\<close>

theorem verifyPreimage_accepts_malformed:
  "verifyPreimage ''zz''
     ''e3b0c44298fc1c149afbf4c8996fb92427ae41e4649b934ca495991b7852b855'' = True"
proof -
  have "verifyPreimage ''zz'' (toHex (sha256 [])) = True"
    by (simp add: verifyPreimage_def unhex_def toLowerCase_toHex)
  then show ?thesis by (simp only: sha256_empty)
qed

section \<open>Properties of the challenge codec\<close>

lemma trim_id:
  assumes "s \<noteq> []" "\<not> isWhiteSpace (hd s)" "\<not> isWhiteSpace (last s)"
  shows "trim s = s"
proof -
  from assms have 1: "dropWhile isWhiteSpace s = s" by (cases s) simp_all
  from assms have "rev s \<noteq> []" "\<not> isWhiteSpace (hd (rev s))" by (simp_all add: hd_rev)
  then have "dropWhile isWhiteSpace (rev s) = rev s" by (cases "rev s") simp_all
  with 1 show ?thesis by (simp add: trim_def)
qed

lemma lowerChar_dquote_self: "lowerChar dquote = dquote"
  by (simp add: lowerChar_def)

lemma of_char_lowerChar:
  "(of_char (lowerChar c) :: nat) =
     (let n = of_char c in
      if (65 \<le> n \<and> n \<le> 90) \<or> (192 \<le> n \<and> n \<le> 222 \<and> n \<noteq> 215) then n + 32 else n)"
  by (simp add: lowerChar_def Let_def)

lemma lowerChar_dquote: "lowerChar c = dquote \<longleftrightarrow> c = dquote"
proof
  assume "lowerChar c = dquote"
  then have "(of_char (lowerChar c) :: nat) = 34" by simp
  then have "(of_char c :: nat) = 34"
    by (simp add: of_char_lowerChar Let_def split: if_splits)
  then have "(of_char c :: nat) = of_char dquote" by simp
  then show "c = dquote" by (simp only: of_char_eq_iff)
qed (simp add: lowerChar_dquote_self)

lemma dquote_lowerChar: "dquote = lowerChar c \<longleftrightarrow> c = dquote"
  using lowerChar_dquote [of c] by auto

lemma matchLiteral_self: "matchLiteral l (l @ r) = Some r"
  by (induction l) simp_all

lemma matchLiteral_quote_end:
  "matchLiteral (K @ [dquote]) (b @ dquote # t) = Some r \<Longrightarrow> dquote \<notin> set b \<Longrightarrow> dquote \<notin> set K
   \<Longrightarrow> toLowerCase b = toLowerCase K"
proof (induction K arbitrary: b)
  case Nil
  then show ?case
    by (cases b) (auto simp: toLowerCase_def lowerChar_dquote dquote_lowerChar lowerChar_dquote_self split: if_splits)
next
  case (Cons k K)
  then show ?case
    by (cases b) (auto simp: toLowerCase_def lowerChar_dquote dquote_lowerChar lowerChar_dquote_self split: if_splits)
qed


lemma matchQuoted_skip:
  "matchAt lit (c # cs) = None \<Longrightarrow> matchQuoted lit (c # cs) = matchQuoted lit cs"
  by simp

lemma matchAt_no_literal: "matchLiteral lit s = None \<Longrightarrow> matchAt lit s = None"
  by (simp add: matchAt_def)

lemma toLowerCase_length: "length (toLowerCase s) = length s"
  by (simp add: toLowerCase_def)

lemma matchQuoted_skip_unquoted:
  assumes "dquote \<notin> set p" "dquote \<notin> set K"
    and "toLowerCase (drop (length p - length K) p) \<noteq> toLowerCase K"
  shows "matchQuoted (K @ [dquote]) (p @ dquote # t) = matchQuoted (K @ [dquote]) (dquote # t)"
  using assms
proof (induction p)
  case Nil
  then show ?case by simp
next
  case (Cons c p)
  have "matchLiteral (K @ [dquote]) ((c # p) @ dquote # t) = None"
  proof (rule ccontr)
    assume "matchLiteral (K @ [dquote]) ((c # p) @ dquote # t) \<noteq> None"
    then obtain r where "matchLiteral (K @ [dquote]) ((c # p) @ dquote # t) = Some r" by auto
    then have e: "toLowerCase (c # p) = toLowerCase K"
      using Cons.prems matchLiteral_quote_end by blast
    then have "length (c # p) = length K" by (metis toLowerCase_length)
    with e Cons.prems(3) show False by simp
  qed
  then have 1: "matchQuoted (K @ [dquote]) ((c # p) @ dquote # t)
      = matchQuoted (K @ [dquote]) (p @ dquote # t)"
    by (simp add: matchAt_no_literal)
  have "toLowerCase (drop (length p - length K) p) \<noteq> toLowerCase K"
  proof (cases "length K \<le> length p")
    case True
    then have "drop (length (c # p) - length K) (c # p) = drop (length p - length K) p"
      by (simp add: Suc_diff_le)
    with Cons.prems(3) show ?thesis by simp
  next
    case False
    then have "length (toLowerCase (drop (length p - length K) p)) \<noteq> length (toLowerCase K)"
      by (simp add: toLowerCase_length)
    then show ?thesis by metis
  qed
  with Cons 1 show ?case by simp
qed

lemma matchAt_here:
  assumes "g \<noteq> []" "dquote \<notin> set g"
  shows "matchAt lit (lit @ g @ dquote # t) = Some g"
proof -
  have "takeWhile (\<lambda>c. c \<noteq> dquote) (g @ dquote # t) = g"
    using assms(2) by (induction g) auto
  with assms(1) show ?thesis by (simp add: matchAt_def matchLiteral_self)
qed

lemma matchQuoted_skip_char:
  "lit \<noteq> [] \<Longrightarrow> lowerChar (hd lit) \<noteq> lowerChar c
   \<Longrightarrow> matchQuoted lit (c # cs) = matchQuoted lit cs"
  by (cases lit) (simp_all add: matchAt_def)

text \<open>
  C7, as amended. For every invoice \<open>p\<close> and macaroon \<open>f\<close> that are not empty, hold no
  quote character, and where \<open>p\<close> does not end in the text \<open>macaroon=\<close> (in any letter
  case), parsing the header built from \<open>p\<close> and \<open>f\<close> succeeds and yields exactly
  \<open>(p, f)\<close>.
\<close>

theorem challenge_roundtrip:
  assumes "p \<noteq> []" "f \<noteq> []" "dquote \<notin> set p" "dquote \<notin> set f"
    and "toLowerCase (drop (length p - 9) p) \<noteq> ''macaroon=''"
  shows "parseWwwAuthenticate (Some (buildWwwAuthenticateHeader p f)) = Some (p, f)"
proof -
  let ?I = "''invoice='' @ [dquote]" and ?M = "''macaroon='' @ [dquote]"
  let ?h = "buildWwwAuthenticateHeader p f"
  define T where "T = ?M @ f @ [dquote]"
  define U where "U = p @ dquote # '', '' @ T"
  have h: "?h = ''L402 '' @ ?I @ U"
    by (simp add: buildWwwAuthenticateHeader_def U_def T_def)
  have "?h \<noteq> []" "\<not> isWhiteSpace (hd ?h)" "\<not> isWhiteSpace (last ?h)"
    by (simp_all add: buildWwwAuthenticateHeader_def isWhiteSpace_def)
  then have t: "trim ?h = ?h" by (rule trim_id)
  have s: "startsWith ?h ''L402 ''" by (simp add: h startsWith_def)
  have d: "drop 5 ?h = ?I @ U" by (simp add: h)
  have "matchAt ?I (?I @ p @ dquote # '', '' @ T) = Some p"
    using assms(1,3) by (rule matchAt_here)
  then have i: "matchQuoted ?I (?I @ U) = Some p" by (simp add: U_def)
  have lm: "toLowerCase ''macaroon='' = ''macaroon=''" by code_simp
  have "matchAt ?M (?M @ f @ dquote # []) = Some f"
    using assms(2,4) by (rule matchAt_here)
  then have "matchAt ?M T = Some f" by (simp add: T_def)
  moreover have "T \<noteq> []" by (simp add: T_def)
  ultimately have m3: "matchQuoted ?M T = Some f" by (cases T) simp_all
  have "matchQuoted ?M (dquote # '', '' @ T) = matchQuoted ?M T"
    by (simp add: matchAt_def lowerChar_def)
  with m3 have m2: "matchQuoted ?M (dquote # '', '' @ T) = Some f" by simp
  have len: "length ''macaroon='' = 9" by simp
  have "toLowerCase (drop (length p - length ''macaroon='') p) \<noteq> toLowerCase ''macaroon=''"
    unfolding len lm by (rule assms(5))
  moreover have "dquote \<notin> set ''macaroon=''" by simp
  ultimately have "matchQuoted ?M U = matchQuoted ?M (dquote # '', '' @ T)"
    unfolding U_def using assms(3) by (intro matchQuoted_skip_unquoted)
  with m2 have m1: "matchQuoted ?M U = Some f" by simp
  have "matchQuoted ?M (?I @ U) = matchQuoted ?M U"
    by (simp add: matchAt_def lowerChar_def)
  with m1 have m: "matchQuoted ?M (?I @ U) = Some f" by simp
  have ne: "(?h = []) = False" by (simp add: h)
  show ?thesis
    unfolding parseWwwAuthenticate_def
    by (simp only: option.case ne if_False Let_def t s d i m simp_thms)
qed

theorem challenge_roundtrip_witness:
  "''lnbc250n1pjfake'' \<noteq> [] \<and> ''aabbccdd'' \<noteq> []
   \<and> dquote \<notin> set ''lnbc250n1pjfake'' \<and> dquote \<notin> set ''aabbccdd''
   \<and> toLowerCase (drop (length ''lnbc250n1pjfake'' - 9) ''lnbc250n1pjfake'') \<noteq> ''macaroon=''
   \<and> parseWwwAuthenticate (Some (buildWwwAuthenticateHeader ''lnbc250n1pjfake'' ''aabbccdd''))
       = Some (''lnbc250n1pjfake'', ''aabbccdd'')"
proof -
  have 1: "''lnbc250n1pjfake'' \<noteq> []" "''aabbccdd'' \<noteq> []"
    "dquote \<notin> set ''lnbc250n1pjfake''" "dquote \<notin> set ''aabbccdd''"
    by simp_all
  have 2: "toLowerCase (drop (length ''lnbc250n1pjfake'' - 9) ''lnbc250n1pjfake'')
             \<noteq> ''macaroon=''"
    by code_simp
  show ?thesis
    using 1 2 challenge_roundtrip [OF 1 2] by simp
qed

text \<open>
  C7 as stated fails. An empty invoice holds no quote, yet the header built from it does
  not parse, since the expression \<open>[^"]+\<close> wants at least one character. And with the
  invoice \<open>macaroon=\<close> the second expression finds its first match inside the invoice's
  own field, so the macaroon read back is not the one written.
\<close>

theorem challenge_roundtrip_counterexample:
  "dquote \<notin> set '''' \<and> dquote \<notin> set ''aabbccdd''
   \<and> parseWwwAuthenticate (Some (buildWwwAuthenticateHeader '''' ''aabbccdd'')) = None
   \<and> dquote \<notin> set ''macaroon=''
   \<and> parseWwwAuthenticate (Some (buildWwwAuthenticateHeader ''macaroon='' ''aabbccdd''))
       = Some (''macaroon='', '', macaroon='')"
  by code_simp

section \<open>Properties of the server gate\<close>






lemma issueChallenge_fails:
  "createInvoice a (invoiceDescription a d) e = None
   \<Longrightarrow> issueChallenge createInvoice a d e createdAt now pend = (InternalError, pend)"
  by (simp add: issueChallenge_def)











section \<open>Properties of the credential cache\<close>

lemma fst_stored: "fst (stored ttl x) = fst x"
  by (simp add: stored_def split: prod.splits)

lemma map_fst_stored: "map fst (map (stored ttl) xs) = map fst xs"
  by (simp add: fst_stored)

lemma map_fst_stored_comp: "map (fst \<circ> stored ttl) xs = map fst xs"
  by (simp add: fst_stored)

lemma update_new_key: "k \<notin> fst ` set al \<Longrightarrow> AList.update k v al = al @ [(k, v)]"
  by (induction al) auto

lemma delete_absent_key: "k \<notin> fst ` set al \<Longrightarrow> AList.delete k al = al"
  by (induction al) auto

lemma delete_head_distinct:
  "distinct (map fst ((k, v) # al)) \<Longrightarrow> AList.delete k ((k, v) # al) = al"
  by (simp add: delete_absent_key)

lemma keys_stored: "fst ` set (map (stored ttl) xs) = fst ` set xs"
  by (simp add: image_image fst_stored)

lemma setAt_append:
  assumes "cache c = map (stored (defaultTtlMs c)) ys" "length ys < maxSize c"
    "k \<notin> fst ` set ys" "c_expiresAt cr = None"
  shows "cache (setAt c k cr t) = map (stored (defaultTtlMs c)) (ys @ [(k, cr, t)])"
proof -
  have "k \<notin> fst ` set (cache c)"
    unfolding assms(1) keys_stored by (rule assms(3))
  then have "AList.update k v (cache c) = cache c @ [(k, v)]" for v
    by (rule update_new_key)
  then show ?thesis
    using assms(2,4) by (simp add: setAt_def stored_def assms(1))
qed

lemma setAt_evict:
  assumes "cache c = map (stored (defaultTtlMs c)) ys" "length ys = maxSize c" "0 < maxSize c"
    "distinct (map fst ys)" "k \<notin> fst ` set ys" "c_expiresAt cr = None"
  shows "cache (setAt c k cr t) = map (stored (defaultTtlMs c)) (tl ys @ [(k, cr, t)])"
proof -
  let ?ttl = "defaultTtlMs c"
  from assms(2,3) obtain y ys' where ys: "ys = y # ys'" by (cases ys) auto
  obtain k0 e0 where y: "stored ?ttl y = (k0, e0)" by (cases "stored ?ttl y")
  have c: "cache c = (k0, e0) # map (stored ?ttl) ys'"
    unfolding assms(1) ys using y by simp
  have "distinct (map fst (cache c))"
    unfolding assms(1) map_fst_stored by (rule assms(4))
  then have d: "AList.delete k0 ((k0, e0) # map (stored ?ttl) ys') = map (stored ?ttl) ys'"
    unfolding c by (rule delete_head_distinct)
  have "k \<notin> fst ` set ys'" using assms(5) ys by auto
  then have "k \<notin> fst ` set (map (stored ?ttl) ys')"
    unfolding keys_stored .
  then have u: "AList.update k v (map (stored ?ttl) ys') = map (stored ?ttl) ys' @ [(k, v)]" for v
    by (rule update_new_key)
  have l: "maxSize c \<le> length (cache c)"
    unfolding assms(1) using assms(2) by simp
  have "cache (setAt c k cr t) = AList.update k
      \<lparr>e_macaroon = c_macaroon cr, e_preimage = c_preimage cr, e_expiresAt = t + ?ttl,
       e_storedAt = t\<rparr> (AList.delete k0 (cache c))"
    using l assms(6) by (simp add: setAt_def c)
  also have "\<dots> = map (stored ?ttl) ys' @ [(k,
      \<lparr>e_macaroon = c_macaroon cr, e_preimage = c_preimage cr, e_expiresAt = t + ?ttl,
       e_storedAt = t\<rparr>)]"
    unfolding c d u ..
  finally show ?thesis by (simp add: ys stored_def)
qed


lemma setAt_settings [simp]:
  "maxSize (setAt c k cr t) = maxSize c" "defaultTtlMs (setAt c k cr t) = defaultTtlMs c"
  by (simp_all add: setAt_def)

lemma getAt_unexpired:
  assumes "\<forall>x \<in> set (cache c). g \<le> e_expiresAt (snd x)"
  shows "snd (getAt c k g) = c"
proof (cases "map_of (cache c) k")
  case None
  then show ?thesis by (simp add: getAt_def)
next
  case (Some en)
  then have "(k, en) \<in> set (cache c)" by (rule map_of_SomeD)
  with assms have "g \<le> e_expiresAt en" by force
  with Some show ?thesis by (simp add: getAt_def)
qed

lemma runOps_Cons: "runOps c (op # ops) = runOps (applyOp c op) ops"
  by (simp add: runOps_def)

lemma expiry_stored: "e_expiresAt (snd (stored ttl y)) = snd (snd y) + ttl"
  by (simp add: stored_def split: prod.splits)

lemma fifo:
  assumes "cache c = map (stored (defaultTtlMs c)) ys" "length ys \<le> maxSize c" "0 < maxSize c"
    "distinct (map fst (ys @ setsOf ops))" "list_all (plainOp (defaultTtlMs c) T) ops"
    "\<forall>y \<in> set ys. T \<le> snd (snd y) + defaultTtlMs c"
  shows "cache (runOps c ops)
    = map (stored (defaultTtlMs c)) (drop (length (ys @ setsOf ops) - maxSize c) (ys @ setsOf ops))"
  using assms
proof (induction ops arbitrary: c ys)
  case Nil
  then show ?case by (simp add: runOps_def)
next
  case (Cons op ops)
  let ?ttl = "defaultTtlMs c" and ?M = "maxSize c"
  show ?case
  proof (cases op)
    case (Get k g)
    with Cons.prems(5) have "g \<le> T" by simp
    with Cons.prems(6) have "\<forall>x \<in> set (cache c). g \<le> e_expiresAt (snd x)"
      unfolding Cons.prems(1) by (auto simp: expiry_stored)
    then have "applyOp c op = c" using Get by (simp add: getAt_unexpired)
    moreover have "setsOf (op # ops) = setsOf ops" using Get by simp
    ultimately show ?thesis
      using Cons.IH [of c ys] Cons.prems by (simp add: runOps_Cons)
  next
    case (Set k cr t)
    with Cons.prems(5) have ok: "c_expiresAt cr = None" "T \<le> t + ?ttl" by simp_all
    have sets: "setsOf (op # ops) = (k, cr, t) # setsOf ops" using Set by simp
    have new: "k \<notin> fst ` set ys" using Cons.prems(4) unfolding sets by auto
    define ys' where "ys' = (if length ys < ?M then ys else tl ys) @ [(k, cr, t)]"
    have c': "cache (setAt c k cr t) = map (stored ?ttl) ys'"
    proof (cases "length ys < ?M")
      case True
      then show ?thesis
        using setAt_append [OF Cons.prems(1) True new ok(1)] by (simp add: ys'_def)
    next
      case False
      with Cons.prems(2) have "length ys = ?M" by simp
      moreover have "distinct (map fst ys)" using Cons.prems(4) by simp
      ultimately show ?thesis
        using setAt_evict [OF Cons.prems(1) _ Cons.prems(3) _ new ok(1)] False
        by (simp add: ys'_def)
    qed
    have len: "length ys' \<le> ?M" using Cons.prems(2,3) by (auto simp: ys'_def)
    have sub: "set (tl ys) \<subseteq> set ys" by (cases ys) auto
    have dis: "distinct (map fst (ys' @ setsOf ops))"
    proof (cases "length ys < ?M")
      case True
      then show ?thesis using Cons.prems(4) unfolding sets by (simp add: ys'_def)
    next
      case False
      have "distinct (map fst (tl ys @ (k, cr, t) # setsOf ops))"
        using Cons.prems(4) unfolding sets by (cases ys) auto
      then show ?thesis using False by (simp add: ys'_def)
    qed
    have live: "\<forall>y \<in> set ys'. T \<le> snd (snd y) + ?ttl"
      using Cons.prems(6) ok(2) sub by (auto simp: ys'_def)
    have plain: "list_all (plainOp ?ttl T) ops" using Cons.prems(5) by simp
    have a: "cache (runOps (setAt c k cr t) ops)
      = map (stored ?ttl) (drop (length (ys' @ setsOf ops) - ?M) (ys' @ setsOf ops))"
      using Cons.IH [of "setAt c k cr t" ys'] c' len Cons.prems(3) dis plain live by simp
    have b: "drop (length (ys' @ setsOf ops) - ?M) (ys' @ setsOf ops)
      = drop (length (ys @ setsOf (op # ops)) - ?M) (ys @ setsOf (op # ops))"
    proof (cases "length ys < ?M")
      case True
      then show ?thesis unfolding sets by (simp add: ys'_def)
    next
      case False
      with Cons.prems(2,3) obtain y yr where ys: "ys = y # yr" and l: "length yr + 1 = ?M"
        by (cases ys) auto
      have "ys' = yr @ [(k, cr, t)]" using False ys by (simp add: ys'_def)
      then show ?thesis unfolding sets ys using l by (simp add: Suc_diff_le)
    qed
    have r: "runOps c (op # ops) = runOps (setAt c k cr t) ops"
      using Set by (simp add: runOps_Cons)
    show ?thesis unfolding r a b ..
  next
    case (Invalidate k)
    with Cons.prems(5) show ?thesis by simp
  next
    case Clear
    with Cons.prems(5) show ?thesis by simp
  next
    case (Cleanup t)
    with Cons.prems(5) show ?thesis by simp
  qed
qed


lemma plain_sets:
  "list_all (plainOp ttl T) ops \<Longrightarrow> x \<in> set (setsOf ops)
   \<Longrightarrow> c_expiresAt (fst (snd x)) = None \<and> T \<le> snd (snd x) + ttl"
  by (induction ops rule: setsOf.induct) auto

lemma newCredentialCache_fields:
  "cache (newCredentialCache a b) = []" "0 < maxSize (newCredentialCache a b)"
  "0 < defaultTtlMs (newCredentialCache a b)"
  by (simp_all add: newCredentialCache_def split: option.splits)

text \<open>
  C8. Take a cache fresh from the constructor and a sequence of calls that inserts
  \<open>maxSize + 1\<close> credentials under distinct keys, none with an expiry of its own, with
  lookups anywhere in between, everything happening before any entry expires. Afterwards
  the keys held are those of all the insertions but the first, in insertion order; a
  lookup of the first key finds nothing, and a lookup of each other key returns its
  credential. The lookups in between do not change who is evicted.
\<close>

theorem capacity_eviction:
  assumes "c0 = newCredentialCache optMaxSize optDefaultTtlMs"
    and "list_all (plainOp (defaultTtlMs c0) T) ops"
    and "distinct (map fst (setsOf ops))"
    and "length (setsOf ops) = maxSize c0 + 1"
    and "now \<le> T"
  shows "map fst (cache (runOps c0 ops)) = map fst (tl (setsOf ops))
    \<and> fst (getAt (runOps c0 ops) (fst (hd (setsOf ops))) now) = None
    \<and> (\<forall>x \<in> set (tl (setsOf ops)).
          fst (getAt (runOps c0 ops) (fst x) now)
            = Some (c_macaroon (fst (snd x)), c_preimage (fst (snd x))))"
proof -
  let ?S = "setsOf ops" and ?ttl = "defaultTtlMs c0"
  have e: "cache c0 = map (stored ?ttl) []" and m: "0 < maxSize c0"
    unfolding assms(1) by (simp_all add: newCredentialCache_fields)
  have "cache (runOps c0 ops)
      = map (stored ?ttl) (drop (length ([] @ ?S) - maxSize c0) ([] @ ?S))"
    using e _ m _ assms(2) by (rule fifo) (simp_all add: assms(3))
  then have c: "cache (runOps c0 ops) = map (stored ?ttl) (tl ?S)"
    using assms(4) by (simp add: drop_Suc)
  from assms(4) obtain x0 rest where S: "?S = x0 # rest" by (cases ?S) auto
  have keys: "map fst (cache (runOps c0 ops)) = map fst (tl ?S)"
    unfolding c by (rule map_fst_stored)
  have "fst x0 \<notin> fst ` set rest" using assms(3) unfolding S by auto
  then have "map_of (cache (runOps c0 ops)) (fst x0) = None"
    unfolding c S by (simp add: map_of_eq_None_iff keys_stored del: set_map)
  then have first: "fst (getAt (runOps c0 ops) (fst (hd ?S)) now) = None"
    unfolding S by (simp add: getAt_def)
  have others: "fst (getAt (runOps c0 ops) (fst x) now)
      = Some (c_macaroon (fst (snd x)), c_preimage (fst (snd x)))"
    if x: "x \<in> set (tl ?S)" for x
  proof -
    have "distinct (map fst (map (stored ?ttl) (tl ?S)))"
      unfolding map_fst_stored using assms(3) S by simp
    moreover have "(fst x, snd (stored ?ttl x)) \<in> set (map (stored ?ttl) (tl ?S))"
      using x by (force simp: stored_def split: prod.splits)
    ultimately have l: "map_of (cache (runOps c0 ops)) (fst x) = Some (snd (stored ?ttl x))"
      unfolding c by (rule map_of_is_SomeI)
    have "x \<in> set ?S" using x S by simp
    with assms(2) have "T \<le> snd (snd x) + ?ttl" using plain_sets by blast
    with assms(5) have "\<not> now > e_expiresAt (snd (stored ?ttl x))"
      by (simp add: expiry_stored)
    with l show ?thesis
      by (simp add: getAt_def stored_def split: prod.splits)
  qed
  from keys first others show ?thesis by blast
qed

theorem capacity_eviction_witness:
  "fst (getAt (runOps (newCredentialCache (Some 2) None)
          [Set ''a'' \<lparr>c_macaroon = ''m1'', c_preimage = ''p1'', c_expiresAt = None\<rparr> 0,
           Get ''a'' 5,
           Set ''b'' \<lparr>c_macaroon = ''m2'', c_preimage = ''p2'', c_expiresAt = None\<rparr> 1,
           Set ''c'' \<lparr>c_macaroon = ''m3'', c_preimage = ''p3'', c_expiresAt = None\<rparr> 2])
        ''a'' 10) = None
   \<and> fst (getAt (runOps (newCredentialCache (Some 2) None)
          [Set ''a'' \<lparr>c_macaroon = ''m1'', c_preimage = ''p1'', c_expiresAt = None\<rparr> 0,
           Get ''a'' 5,
           Set ''b'' \<lparr>c_macaroon = ''m2'', c_preimage = ''p2'', c_expiresAt = None\<rparr> 1,
           Set ''c'' \<lparr>c_macaroon = ''m3'', c_preimage = ''p3'', c_expiresAt = None\<rparr> 2])
        ''b'' 10) = Some (''m2'', ''p2'')
   \<and> fst (getAt (runOps (newCredentialCache (Some 2) None)
          [Set ''a'' \<lparr>c_macaroon = ''m1'', c_preimage = ''p1'', c_expiresAt = None\<rparr> 0,
           Get ''a'' 5,
           Set ''b'' \<lparr>c_macaroon = ''m2'', c_preimage = ''p2'', c_expiresAt = None\<rparr> 1,
           Set ''c'' \<lparr>c_macaroon = ''m3'', c_preimage = ''p3'', c_expiresAt = None\<rparr> 2])
        ''c'' 10) = Some (''m3'', ''p3'')"
  using capacity_eviction [of "newCredentialCache (Some 2) None" "Some 2" None 10
      "[Set ''a'' \<lparr>c_macaroon = ''m1'', c_preimage = ''p1'', c_expiresAt = None\<rparr> 0,
        Get ''a'' 5,
        Set ''b'' \<lparr>c_macaroon = ''m2'', c_preimage = ''p2'', c_expiresAt = None\<rparr> 1,
        Set ''c'' \<lparr>c_macaroon = ''m3'', c_preimage = ''p3'', c_expiresAt = None\<rparr> 2]" 10]
  by (simp add: newCredentialCache_def)

lemma set_update_subset: "set (AList.update k v al) \<subseteq> insert (k, v) (set al)"
  by (induction al) auto

lemma set_delete_subset: "set (AList.delete k al) \<subseteq> set al"
  by (auto simp: AList.delete_eq)

lemma length_delete_less: "k \<in> fst ` set al \<Longrightarrow> length (AList.delete k al) < length al"
proof (induction al)
  case Nil
  then show ?case by simp
next
  case (Cons x al)
  show ?case
  proof (cases "fst x = k")
    case True
    then show ?thesis
      using length_delete_le [of k al] by (cases x) (simp add: less_Suc_eq_le)
  next
    case False
    with Cons show ?thesis by (cases x) auto
  qed
qed

lemma length_update_le: "length (AList.update k v al) \<le> Suc (length al)"
  by (induction al) auto

lemma length_update_present: "k \<in> fst ` set al \<Longrightarrow> length (AList.update k v al) = length al"
  by (induction al) auto

lemma list_all_subset: "list_all P xs \<Longrightarrow> set ys \<subseteq> set xs \<Longrightarrow> list_all P ys"
  by (auto simp: list_all_iff)

lemma entriesValid_setAt: "entriesValid c \<Longrightarrow> entriesValid (setAt c k cr t)"
proof -
  assume v: "entriesValid c"
  define m where "m = (if length (cache c) \<ge> maxSize c
               then (case cache c of [] \<Rightarrow> [] | (oldest, _) # _ \<Rightarrow> AList.delete oldest (cache c))
               else cache c)"
  define en where "en = \<lparr>e_macaroon = c_macaroon cr, e_preimage = c_preimage cr,
      e_expiresAt = (case c_expiresAt cr of Some e \<Rightarrow> if e \<noteq> 0 then e else t + defaultTtlMs c
                     | None \<Rightarrow> t + defaultTtlMs c), e_storedAt = t\<rparr>"
  have s: "setAt c k cr t = c\<lparr>cache := AList.update k en m\<rparr>"
    by (simp add: setAt_def m_def en_def)
  have sm: "set m \<subseteq> set (cache c)"
  proof (cases "cache c")
    case Nil
    then show ?thesis by (simp add: m_def)
  next
    case (Cons x xs)
    then show ?thesis
      using set_delete_subset [of "fst x" "cache c"] by (cases x) (auto simp: m_def)
  qed
  have "distinct (map fst (cache c))" using v by (simp add: entriesValid_def)
  then have "distinct (map fst (AList.delete k' (cache c)))" for k'
    by (rule distinct_delete)
  then have dm: "distinct (map fst m)"
    using v by (cases "cache c") (auto simp: m_def entriesValid_def)
  have "0 < e_expiresAt en" using v
    by (auto simp: en_def entriesValid_def split: option.splits)
  moreover have "list_all (\<lambda>x. 0 < e_expiresAt (snd x)) m"
    using v sm by (auto simp: entriesValid_def intro: list_all_subset)
  ultimately have "list_all (\<lambda>x. 0 < e_expiresAt (snd x)) (AList.update k en m)"
    using set_update_subset [of k en m] by (auto simp: list_all_iff)
  with dm v show ?thesis
    by (simp add: s entriesValid_def distinct_update)
qed

lemma entriesValid_delete:
  "entriesValid c \<Longrightarrow> entriesValid (c\<lparr>cache := AList.delete k (cache c)\<rparr>)"
  using set_delete_subset [of k "cache c"]
  by (auto simp: entriesValid_def distinct_delete intro: list_all_subset)

lemma entriesValid_applyOp: "entriesValid c \<Longrightarrow> entriesValid (applyOp c op)"
proof (cases op)
  case (Set k cr t)
  assume "entriesValid c"
  then show ?thesis using Set by (simp add: entriesValid_setAt)
next
  case (Get k t)
  assume "entriesValid c"
  then show ?thesis using Get entriesValid_delete [of c k]
    by (simp add: getAt_def split: option.splits)
next
  case (Invalidate k)
  assume "entriesValid c"
  then show ?thesis using Invalidate entriesValid_delete [of c k]
    by (simp add: invalidateAt_def)
next
  case Clear
  assume "entriesValid c"
  then show ?thesis using Clear by (simp add: clear_def entriesValid_def)
next
  case (Cleanup t)
  assume "entriesValid c"
  then show ?thesis using Cleanup
    by (auto simp: cleanup_def entriesValid_def distinct_map_filter list_all_iff)
qed

lemma entriesValid_runOps: "entriesValid c \<Longrightarrow> entriesValid (runOps c ops)"
  unfolding runOps_def by (induction ops arbitrary: c) (simp_all add: entriesValid_applyOp)

lemma entriesValid_new: "entriesValid (newCredentialCache a b)"
  by (simp add: entriesValid_def newCredentialCache_def split: option.splits)

lemma map_of_filter_distinct:
  "distinct (map fst al) \<Longrightarrow> map_of (filter P al) k
     = (case map_of al k of None \<Rightarrow> None | Some v \<Rightarrow> if P (k, v) then Some v else None)"
proof (induction al)
  case Nil
  then show ?case by simp
next
  case (Cons x al)
  then show ?case
    by (cases x) (auto simp: map_of_eq_None_iff split: option.splits)
qed


lemma reachable_valid:
  "entriesValid (runOps (newCredentialCache a b) ops)"
  by (simp add: entriesValid_runOps entriesValid_new)

lemma getAt_expired:
  assumes "map_of (cache c) k = Some en" "0 < e_expiresAt en" "e_expiresAt en < now"
  shows "getAt c k now = (None, invalidateAt c k)"
  using assms by (simp add: getAt_def invalidateAt_def)

lemma getAt_live:
  assumes "map_of (cache c) k = Some en" "now \<le> e_expiresAt en"
  shows "getAt c k now = (Some (e_macaroon en, e_preimage en), c)"
  using assms by (simp add: getAt_def)

lemma getAt_keeps_live:
  assumes "map_of (cache c) k = Some en" "now \<le> e_expiresAt en"
  shows "map_of (cache (snd (getAt c k' now))) k = Some en"
proof (cases "k' = k")
  case True
  with assms show ?thesis by (simp add: getAt_live)
next
  case False
  with assms(1) show ?thesis
    by (simp add: getAt_def delete_conv' split: option.splits)
qed

lemma setAt_lookup:
  "map_of (cache (setAt c k cr t)) k
     = Some \<lparr>e_macaroon = c_macaroon cr, e_preimage = c_preimage cr,
             e_expiresAt = (case c_expiresAt cr of
                              Some e \<Rightarrow> if e \<noteq> 0 then e else t + defaultTtlMs c
                            | None \<Rightarrow> t + defaultTtlMs c),
             e_storedAt = t\<rparr>"
  by (simp add: setAt_def update_conv')

text \<open>
  C9, as amended. In every cache built by the constructor and its methods: an entry
  whose \<open>expiresAt\<close> is before the time of the lookup is not returned by \<open>get\<close>, which
  removes it, and \<open>cleanup\<close> at that time removes it as well; an entry that is not yet
  expired is returned by \<open>get\<close>, and survives \<open>cleanup\<close> and a \<open>get\<close> of any key. A
  credential inserted with an \<open>expiresAt\<close> that is not zero and lies in the past is stored
  with that expiry, and a \<open>get\<close> at any later time returns nothing.
\<close>

theorem expiry_semantics:
  assumes "c = runOps (newCredentialCache optMaxSize optDefaultTtlMs) ops"
  shows "(map_of (cache c) k = Some en \<and> e_expiresAt en < now
        \<longrightarrow> getAt c k now = (None, invalidateAt c k)
          \<and> map_of (cache (snd (getAt c k now))) k = None
          \<and> map_of (cache (cleanup c now)) k = None)
    \<and> (map_of (cache c) k = Some en \<and> now \<le> e_expiresAt en
        \<longrightarrow> getAt c k now = (Some (e_macaroon en, e_preimage en), c)
          \<and> map_of (cache (snd (getAt c k' now))) k = Some en
          \<and> map_of (cache (cleanup c now)) k = Some en)
    \<and> (c_expiresAt cr = Some e \<and> 0 < e \<and> e < now
        \<longrightarrow> map_of (cache (setAt c k cr t)) k
            = Some \<lparr>e_macaroon = c_macaroon cr, e_preimage = c_preimage cr,
                    e_expiresAt = e, e_storedAt = t\<rparr>
          \<and> fst (getAt (setAt c k cr t) k now) = None)"
proof (intro conjI impI)
  have v: "entriesValid c" unfolding assms by (rule reachable_valid)
  then have d: "distinct (map fst (cache c))" by (simp add: entriesValid_def)
  {
    assume a: "map_of (cache c) k = Some en \<and> e_expiresAt en < now"
    then have "(k, en) \<in> set (cache c)" by (simp add: map_of_SomeD)
    with v have p: "0 < e_expiresAt en" by (auto simp: entriesValid_def list_all_iff)
    with a show g: "getAt c k now = (None, invalidateAt c k)" by (simp add: getAt_expired)
    show "map_of (cache (snd (getAt c k now))) k = None"
      unfolding g by (simp add: invalidateAt_def delete_conv')
    from a have m: "map_of (cache c) k = Some en" and lt: "e_expiresAt en < now"
      by simp_all
    show "map_of (cache (cleanup c now)) k = None"
      using p lt by (simp add: cleanup_def map_of_filter_distinct [OF d] m)
  }
  {
    assume a: "map_of (cache c) k = Some en \<and> now \<le> e_expiresAt en"
    then show "getAt c k now = (Some (e_macaroon en, e_preimage en), c)"
      by (simp add: getAt_live)
    from a show "map_of (cache (snd (getAt c k' now))) k = Some en"
      by (simp add: getAt_keeps_live)
    from a have m: "map_of (cache c) k = Some en" and le: "now \<le> e_expiresAt en"
      by simp_all
    show "map_of (cache (cleanup c now)) k = Some en"
      using le by (simp add: cleanup_def map_of_filter_distinct [OF d] m)
  }
  {
    assume a: "c_expiresAt cr = Some e \<and> 0 < e \<and> e < now"
    then show l: "map_of (cache (setAt c k cr t)) k
        = Some \<lparr>e_macaroon = c_macaroon cr, e_preimage = c_preimage cr,
                e_expiresAt = e, e_storedAt = t\<rparr>"
      by (simp add: setAt_lookup)
    from a show "fst (getAt (setAt c k cr t) k now) = None"
      by (simp add: getAt_def l)
  }
qed

theorem expiry_semantics_witness:
  "fst (getAt (runOps (newCredentialCache None None)
          [Set ''k'' \<lparr>c_macaroon = ''m'', c_preimage = ''p'', c_expiresAt = Some 500\<rparr> 1000])
        ''k'' 2000) = None
   \<and> map_of (cache (cleanup (runOps (newCredentialCache None None)
          [Set ''k'' \<lparr>c_macaroon = ''m'', c_preimage = ''p'', c_expiresAt = Some 500\<rparr> 1000])
        2000)) ''k'' = None
   \<and> fst (getAt (runOps (newCredentialCache None None)
          [Set ''k'' \<lparr>c_macaroon = ''m'', c_preimage = ''p'', c_expiresAt = Some 500\<rparr> 1000])
        ''k'' 400) = Some (''m'', ''p'')"
proof -
  let ?c = "runOps (newCredentialCache None None)
      [Set ''k'' \<lparr>c_macaroon = ''m'', c_preimage = ''p'', c_expiresAt = Some 500\<rparr> 1000]"
  let ?en = "\<lparr>e_macaroon = ''m'', e_preimage = ''p'', e_expiresAt = 500, e_storedAt = 1000\<rparr>"
  have l: "map_of (cache ?c) ''k'' = Some ?en"
    by (simp add: runOps_def setAt_lookup)
  note t = expiry_semantics [of ?c None None _ "''k''" ?en, OF refl]
  from t [of 2000] l have "getAt ?c ''k'' 2000 = (None, invalidateAt ?c ''k'')"
    and "map_of (cache (cleanup ?c 2000)) ''k'' = None"
    by simp_all
  moreover from t [of 400] l have "getAt ?c ''k'' 400 = (Some (''m'', ''p''), ?c)"
    by simp
  ultimately show ?thesis by simp
qed

text \<open>
  C9 as stated fails for the expiry zero: \<open>set\<close> reads \<open>credential.expiresAt || \<dots>\<close>, so
  a credential inserted at time 1000 with \<open>expiresAt: 0\<close>, which lies in the past, is
  stored with the default lifetime and is returned by a \<open>get\<close> at time 2000.
\<close>

theorem expiry_zero_counterexample:
  "(0::nat) < 1000
   \<and> fst (getAt (setAt (newCredentialCache None None) ''k''
              \<lparr>c_macaroon = ''m'', c_preimage = ''p'', c_expiresAt = Some 0\<rparr> 1000)
            ''k'' 2000) = Some (''m'', ''p'')"
  by (simp add: getAt_def setAt_lookup newCredentialCache_def)


lemma applyOp_maxSize: "maxSize (applyOp c op) = maxSize c"
  by (cases op)
    (simp_all add: setAt_def getAt_def invalidateAt_def clear_def cleanup_def
      split: option.splits)

lemma length_setAt:
  assumes "0 < maxSize c" "length (cache c) \<le> maxSize c"
  shows "length (cache (setAt c k cr t)) \<le> maxSize c"
proof (cases "length (cache c) < maxSize c")
  case True
  have "length (AList.update k v (cache c)) \<le> maxSize c" for v
    using length_update_le [of k v "cache c"] True by simp
  with True show ?thesis by (simp add: setAt_def)
next
  case False
  with assms obtain x xs where c: "cache c = x # xs" and l: "length (cache c) = maxSize c"
    by (cases "cache c") auto
  have "fst x \<in> fst ` set (cache c)" using c by simp
  then have "length (AList.delete (fst x) (cache c)) < maxSize c"
    using length_delete_less [of "fst x" "cache c"] l by simp
  then have "length (AList.update k v (AList.delete (fst x) (cache c))) \<le> maxSize c" for v
    using length_update_le [of k v "AList.delete (fst x) (cache c)"] by simp
  then show ?thesis
    using l c by (cases x) (simp add: setAt_def)
qed

lemma length_applyOp:
  assumes "0 < maxSize c" "length (cache c) \<le> maxSize c"
  shows "length (cache (applyOp c op)) \<le> maxSize c"
proof (cases op)
  case (Set k cr t)
  with assms show ?thesis by (simp add: length_setAt)
next
  case (Get k t)
  with assms(2) show ?thesis
    using AList.length_delete_le [of k "cache c"]
    by (simp add: getAt_def split: option.splits)
next
  case (Invalidate k)
  with assms(2) show ?thesis
    using AList.length_delete_le [of k "cache c"] by (simp add: invalidateAt_def)
next
  case Clear
  then show ?thesis by (simp add: clear_def)
next
  case (Cleanup t)
  have "length (filter P (cache c)) \<le> maxSize c" for P
    by (rule le_trans [OF length_filter_le assms(2)])
  with Cleanup show ?thesis by (simp add: cleanup_def)
qed

lemma length_runOps:
  "0 < maxSize c \<Longrightarrow> length (cache c) \<le> maxSize c
   \<Longrightarrow> length (cache (runOps c ops)) \<le> maxSize c"
proof (induction ops arbitrary: c)
  case Nil
  then show ?case by (simp add: runOps_def)
next
  case (Cons op ops)
  have "length (cache (runOps (applyOp c op) ops)) \<le> maxSize (applyOp c op)"
    using Cons.prems by (intro Cons.IH) (simp_all add: applyOp_maxSize length_applyOp)
  then show ?case by (simp add: runOps_def applyOp_maxSize)
qed

text \<open>
  C10. In a cache that is full, \<open>set\<close> on a key that is already present first deletes
  the oldest entry: when the oldest key is another one, it is gone afterwards and the
  size is \<open>maxSize - 1\<close>; the key written holds the new credential; and the size does not
  exceed \<open>maxSize\<close>. And whatever sequence of calls is made on a cache fresh from the
  constructor, its size never exceeds \<open>maxSize\<close>.
\<close>

theorem overwrite_at_capacity:
  "(distinct (map fst (cache c)) \<and> length (cache c) = maxSize c
      \<and> cache c = (oldest, e0) # rest \<and> k \<in> fst ` set (cache c)
     \<longrightarrow> length (cache (setAt c k cr t)) \<le> maxSize c
       \<and> (oldest \<noteq> k \<longrightarrow> map_of (cache (setAt c k cr t)) oldest = None
                          \<and> length (cache (setAt c k cr t)) = maxSize c - 1)
       \<and> (\<exists>en. map_of (cache (setAt c k cr t)) k = Some en
                 \<and> e_macaroon en = c_macaroon cr \<and> e_preimage en = c_preimage cr))
   \<and> length (cache (runOps (newCredentialCache a b) ops)) \<le> maxSize (newCredentialCache a b)"
proof (intro conjI impI)
  show "length (cache (runOps (newCredentialCache a b) ops)) \<le> maxSize (newCredentialCache a b)"
    by (rule length_runOps) (simp_all add: newCredentialCache_def split: option.splits)
next
  assume h: "distinct (map fst (cache c)) \<and> length (cache c) = maxSize c
      \<and> cache c = (oldest, e0) # rest \<and> k \<in> fst ` set (cache c)"
  then have c: "cache c = (oldest, e0) # rest" and full: "length (cache c) = maxSize c"
    by blast+
  from h have d: "distinct (map fst ((oldest, e0) # rest))"
    and k: "k \<in> fst ` set ((oldest, e0) # rest)"
    unfolding c by simp_all
  have "oldest \<notin> fst ` set rest" using d by simp
  then have del: "AList.delete oldest rest = rest"
    by (rule delete_absent_key)
  have s: "cache (setAt c k cr t) = AList.update k
      \<lparr>e_macaroon = c_macaroon cr, e_preimage = c_preimage cr,
       e_expiresAt = (case c_expiresAt cr of
                        Some e \<Rightarrow> if e \<noteq> 0 then e else t + defaultTtlMs c
                      | None \<Rightarrow> t + defaultTtlMs c),
       e_storedAt = t\<rparr> rest" (is "_ = AList.update k ?en rest")
    using full by (simp add: setAt_def c del)
  have m: "Suc (length rest) = maxSize c" using full c by simp
  show "length (cache (setAt c k cr t)) \<le> maxSize c"
    unfolding s using length_update_le [of k ?en rest] m by simp
  show "\<exists>en. map_of (cache (setAt c k cr t)) k = Some en
      \<and> e_macaroon en = c_macaroon cr \<and> e_preimage en = c_preimage cr"
    unfolding s by (simp add: update_conv')
  {
    assume n: "oldest \<noteq> k"
    have "map_of rest oldest = None" using d by (simp add: map_of_eq_None_iff)
    with n show "map_of (cache (setAt c k cr t)) oldest = None"
      unfolding s by (simp add: update_conv')
    from n k have "k \<in> fst ` set rest" by auto
    then have "length (AList.update k ?en rest) = length rest"
      by (rule length_update_present)
    with m show "length (cache (setAt c k cr t)) = maxSize c - 1"
      unfolding s by simp
  }
qed

theorem overwrite_at_capacity_witness:
  "map_of (cache (setAt
       (runOps (newCredentialCache (Some 2) None)
          [Set ''a'' \<lparr>c_macaroon = ''m1'', c_preimage = ''p1'', c_expiresAt = None\<rparr> 0,
           Set ''b'' \<lparr>c_macaroon = ''m2'', c_preimage = ''p2'', c_expiresAt = None\<rparr> 1])
       ''b'' \<lparr>c_macaroon = ''m3'', c_preimage = ''p3'', c_expiresAt = None\<rparr> 2)) ''a'' = None
   \<and> length (cache (setAt
       (runOps (newCredentialCache (Some 2) None)
          [Set ''a'' \<lparr>c_macaroon = ''m1'', c_preimage = ''p1'', c_expiresAt = None\<rparr> 0,
           Set ''b'' \<lparr>c_macaroon = ''m2'', c_preimage = ''p2'', c_expiresAt = None\<rparr> 1])
       ''b'' \<lparr>c_macaroon = ''m3'', c_preimage = ''p3'', c_expiresAt = None\<rparr> 2)) = 1"
proof -
  let ?c = "runOps (newCredentialCache (Some 2) None)
      [Set ''a'' \<lparr>c_macaroon = ''m1'', c_preimage = ''p1'', c_expiresAt = None\<rparr> 0,
       Set ''b'' \<lparr>c_macaroon = ''m2'', c_preimage = ''p2'', c_expiresAt = None\<rparr> 1]"
  let ?e1 = "\<lparr>e_macaroon = ''m1'', e_preimage = ''p1'', e_expiresAt = 3600000, e_storedAt = 0\<rparr>"
  let ?e2 = "\<lparr>e_macaroon = ''m2'', e_preimage = ''p2'', e_expiresAt = 3600001, e_storedAt = 1\<rparr>"
  have c: "cache ?c = (''a'', ?e1) # [(''b'', ?e2)]" and m: "maxSize ?c = 2"
    by (simp_all add: runOps_def setAt_def newCredentialCache_def)
  have "distinct (map fst (cache ?c)) \<and> length (cache ?c) = maxSize ?c
      \<and> cache ?c = (''a'', ?e1) # [(''b'', ?e2)] \<and> ''b'' \<in> fst ` set (cache ?c)"
    unfolding m unfolding c by simp
  with overwrite_at_capacity [of ?c "''a''" ?e1 "[(''b'', ?e2)]" "''b''"
      "\<lparr>c_macaroon = ''m3'', c_preimage = ''p3'', c_expiresAt = None\<rparr>" 2 None None "[]"]
  show ?thesis unfolding m by simp
qed

section \<open>Properties of the client orchestrator\<close>

lemma doFetch_trace:
  "trace (snd (doFetch E url a s)) = trace s @ [Fetch a (fst (doFetch E url a s))]"
  by (simp add: doFetch_def Let_def split: prod.splits)

lemma doFetch_cache: "cacheInstance (snd (doFetch E url a s)) = cacheInstance s"
  by (simp add: doFetch_def Let_def split: prod.splits)

lemma decodeAmount_trace:
  "\<exists>evs. trace (snd (decodeAmount wal invoice s)) = trace s @ evs
     \<and> filter isPay evs = [] \<and> filter isFetch evs = []"
  by (auto simp: decodeAmount_def Let_def split: option.splits prod.splits)

lemma determineAmount_trace:
  "\<exists>evs. trace (snd (determineAmount wal invoice resp s)) = trace s @ evs
     \<and> filter isPay evs = [] \<and> filter isFetch evs = []"
  using decodeAmount_trace [of wal invoice s]
  by (auto simp: determineAmount_def Let_def split: option.splits prod.splits jsValue.splits)

lemma notify_trace:
  "\<exists>evs. trace (snd (notify opts wal invoice preimage s)) = trace s @ evs
     \<and> filter isPay evs = [] \<and> filter isFetch evs = []"
proof (cases "onPayment opts")
  case None
  then show ?thesis by (simp add: notify_def)
next
  case (Some cb)
  obtain a s1 where d: "decodeAmount wal invoice s = (a, s1)" by (cases "decodeAmount wal invoice s")
  obtain evs where e: "trace s1 = trace s @ evs" "filter isPay evs = []" "filter isFetch evs = []"
    using decodeAmount_trace [of wal invoice s] d by auto
  show ?thesis
    using Some d e
    by (auto simp: notify_def Let_def split: prod.splits intro!: exI [of _ "evs @ [OnPayment invoice preimage a]"])
qed

lemma remember_trace:
  "remember E url meth macaroon preimage s = Some s' \<Longrightarrow> trace s' = trace s"
  by (auto simp: remember_def Let_def split: option.splits)

lemma settle_trace:
  "\<exists>evs. trace (snd (settle E url opts wal invoice macaroon s)) = trace s @ PayInvoice invoice # evs
     \<and> filter isPay evs = [] \<and> length (filter isFetch evs) \<le> 1
     \<and> (\<forall>a resp. last (PayInvoice invoice # evs) = Fetch a (Some resp)
           \<longrightarrow> fst (settle E url opts wal invoice macaroon s) = Inr resp)"
proof -
  obtain p w where pay: "payInvoice wal invoice (world s) = (p, w)"
    by (cases "payInvoice wal invoice (world s)")
  define s1 where "s1 = s\<lparr>world := w, trace := trace s @ [PayInvoice invoice]\<rparr>"
  have nil: ?thesis if "snd (settle E url opts wal invoice macaroon s) = s1"
    using that by (auto simp: s1_def intro!: exI [of _ "[]"])
  show ?thesis
  proof (cases p)
    case None
    then show ?thesis using pay by (intro nil) (simp add: settle_def s1_def Let_def)
  next
    case (Some pr)
    show ?thesis
    proof (cases "pr = None \<or> pr = Some []")
      case True
      then show ?thesis using pay Some by (intro nil) (auto simp: settle_def s1_def Let_def)
    next
      case False
      then obtain preimage where pr: "pr = Some preimage" "preimage \<noteq> []" by auto
      obtain ok s2 where n: "notify opts wal invoice preimage s1 = (ok, s2)"
        by (cases "notify opts wal invoice preimage s1")
      obtain evs where e: "trace s2 = trace s1 @ evs" "filter isPay evs = []"
        "filter isFetch evs = []"
        using notify_trace [of opts wal invoice preimage s1] n by auto
      have quiet: ?thesis if "snd (settle E url opts wal invoice macaroon s) = s2"
        and "\<exists>err. fst (settle E url opts wal invoice macaroon s) = Inl err"
      proof -
        have "last (PayInvoice invoice # evs) \<noteq> Fetch a (Some resp)" for a resp
        proof (cases evs rule: rev_cases)
          case Nil
          then show ?thesis by simp
        next
          case (snoc ys y)
          with e(3) have "\<not> isFetch y" by (auto split: if_splits)
          with snoc show ?thesis by auto
        qed
        with that e show ?thesis
          by (auto simp: s1_def intro!: exI [of _ evs])
      qed
      show ?thesis
      proof (cases ok)
        case False
        then show ?thesis using pay Some pr n
          by (intro quiet) (simp_all add: settle_def s1_def Let_def)
      next
        case True
        show ?thesis
        proof (cases "remember E url (httpMethod opts) macaroon preimage s2")
          case None
          then show ?thesis using pay Some pr n True
            by (intro quiet) (simp_all add: settle_def s1_def Let_def)
        next
          case (Some s3)
          let ?a = "Some (authorization macaroon preimage)"
          have t3: "trace s3 = trace s2" using Some by (rule remember_trace)
          have f: "trace (snd (doFetch E url ?a s3))
              = trace s @ PayInvoice invoice # (evs @ [Fetch ?a (fst (doFetch E url ?a s3))])"
            by (simp add: doFetch_trace t3 e s1_def)
          have r: "snd (settle E url opts wal invoice macaroon s) = snd (doFetch E url ?a s3)"
            "fst (settle E url opts wal invoice macaroon s)
               = (case fst (doFetch E url ?a s3) of None \<Rightarrow> Inl FetchRejected
                  | Some retried \<Rightarrow> Inr retried)"
            using pay \<open>p = Some pr\<close> pr n True Some
            by (simp_all add: settle_def s1_def Let_def split: prod.splits option.splits)
          show ?thesis
            unfolding r f using e(2,3)
            by (intro exI [of _ "evs @ [Fetch ?a (fst (doFetch E url ?a s3))]"])
              (auto split: option.splits)
        qed
      qed
    qed
  qed
qed


lemma dropWhile_no_pay:
  "filter isPay d = [] \<Longrightarrow> dropWhile (\<lambda>e. \<not> isPay e) (d @ ys) = dropWhile (\<lambda>e. \<not> isPay e) ys"
  by (rule dropWhile_append2) (simp add: filter_empty_conv)

lemma fetchesAfterPay_quiet:
  assumes "filter isPay evs = []"
  shows "fetchesAfterPay evs = 0"
proof -
  from dropWhile_no_pay [OF assms, of "[]"] have "dropWhile (\<lambda>e. \<not> isPay e) evs = []"
    by simp
  then show ?thesis unfolding fetchesAfterPay_def by (simp only: filter.simps list.size)
qed

lemma payments_append: "payments (xs @ ys) = payments xs + payments ys"
  by (simp add: payments_def)

lemma fetchesAfterPay_skip:
  "filter isPay d = [] \<Longrightarrow> fetchesAfterPay (d @ ys) = fetchesAfterPay ys"
  by (simp add: fetchesAfterPay_def dropWhile_no_pay)

lemma oneCycle_quiet: "filter isPay evs = [] \<Longrightarrow> oneCycle evs result"
  by (simp add: oneCycle_def fetchesAfterPay_quiet payments_def)

lemma oneCycle_skip:
  "filter isPay d = [] \<Longrightarrow> ys \<noteq> [] \<Longrightarrow> oneCycle ys result \<Longrightarrow> oneCycle (d @ ys) result"
  by (simp add: oneCycle_def fetchesAfterPay_skip payments_append) (simp add: payments_def)

lemma oneCycle_settle:
  assumes "trace (snd (settle E url opts wal invoice macaroon s)) = trace s @ evs"
  shows "evs \<noteq> [] \<and> oneCycle evs (fst (settle E url opts wal invoice macaroon s))"
proof -
  obtain evs' where e: "trace (snd (settle E url opts wal invoice macaroon s))
        = trace s @ PayInvoice invoice # evs'"
      "filter isPay evs' = []" "length (filter isFetch evs') \<le> 1"
      "\<forall>a resp. last (PayInvoice invoice # evs') = Fetch a (Some resp)
           \<longrightarrow> fst (settle E url opts wal invoice macaroon s) = Inr resp"
    using settle_trace [of E url opts wal invoice macaroon s] by blast
  from e(1) assms have evs: "evs = PayInvoice invoice # evs'" by simp
  show ?thesis
    unfolding evs oneCycle_def using e(2,3,4)
    by (simp add: payments_def fetchesAfterPay_def)
qed


lemma settle_cycle:
  assumes "filter isPay d = []" "trace sx = trace s @ d"
  shows "\<exists>evs. trace (snd (settle E url opts wal invoice macaroon sx)) = trace s @ evs
     \<and> evs \<noteq> [] \<and> oneCycle evs (fst (settle E url opts wal invoice macaroon sx))"
proof -
  obtain evs' where e: "trace (snd (settle E url opts wal invoice macaroon sx))
        = trace sx @ PayInvoice invoice # evs'"
    using settle_trace [of E url opts wal invoice macaroon sx] by blast
  then have "PayInvoice invoice # evs' \<noteq> []
      \<and> oneCycle (PayInvoice invoice # evs') (fst (settle E url opts wal invoice macaroon sx))"
    by (rule oneCycle_settle)
  then have "oneCycle (d @ PayInvoice invoice # evs')
      (fst (settle E url opts wal invoice macaroon sx))"
    using assms(1) by (intro oneCycle_skip) simp_all
  then show ?thesis
    using e assms(2) by (intro exI [of _ "d @ PayInvoice invoice # evs'"]) simp
qed

lemma quiet_cycle:
  assumes "filter isPay d = []" "d \<noteq> []" "trace sx = trace s @ d"
  shows "\<exists>evs. trace sx = trace s @ evs \<and> evs \<noteq> [] \<and> oneCycle evs result"
  using assms by (intro exI [of _ d]) (simp add: oneCycle_quiet)

lemma payCycle_cycle:
  "\<exists>evs. trace (snd (payCycle E url opts s)) = trace s @ evs
     \<and> evs \<noteq> [] \<and> oneCycle evs (fst (payCycle E url opts s))"
proof -
  obtain r s1 where f: "doFetch E url None s = (r, s1)" by (cases "doFetch E url None s")
  have t1: "trace s1 = trace s @ [Fetch None r]"
    using doFetch_trace [of E url None s] f by simp
  have q1: "filter isPay [Fetch None r] = []" "[Fetch None r] \<noteq> []" by simp_all
  note early = quiet_cycle [OF q1 t1]
  show ?thesis
  proof (cases "\<exists>resp wal invoice macaroon. r = Some resp \<and> status resp = 402
      \<and> wallet opts = Some wal
      \<and> parseWwwAuthenticate (wwwAuthenticate resp) = Some (invoice, macaroon)")
    case False
    then have "snd (payCycle E url opts s) = s1"
      using f by (auto simp: payCycle_def split: option.splits)
    then show ?thesis using early by simp
  next
    case True
    then obtain resp wal invoice macaroon where c: "r = Some resp" "status resp = 402"
      "wallet opts = Some wal"
      "parseWwwAuthenticate (wwwAuthenticate resp) = Some (invoice, macaroon)"
      by blast
    show ?thesis
    proof (cases "maxAmountSats opts")
      case None
      then have "payCycle E url opts s = settle E url opts wal invoice macaroon s1"
        using f c by (simp add: payCycle_def)
      then show ?thesis using settle_cycle [OF q1(1) t1] by simp
    next
      case (Some cap)
      obtain a s2 where d: "determineAmount wal invoice resp s1 = (a, s2)"
        by (cases "determineAmount wal invoice resp s1")
      obtain dq where t2: "trace s2 = trace s1 @ dq" "filter isPay dq = []"
        using determineAmount_trace [of wal invoice resp s1] d by auto
      have t2': "trace s2 = trace s @ (Fetch None r # dq)" using t1 t2(1) by simp
      have q2: "filter isPay (Fetch None r # dq) = []" "Fetch None r # dq \<noteq> []"
        using t2(2) by simp_all
      show ?thesis
      proof (cases "\<exists>n. a = JsNumber n \<and> n > cap")
        case True
        then have "snd (payCycle E url opts s) = s2"
          using f c Some d by (auto simp: payCycle_def)
        then show ?thesis using quiet_cycle [OF q2 t2'] by simp
      next
        case False
        then have "payCycle E url opts s = settle E url opts wal invoice macaroon s2"
          using f c Some d by (auto simp: payCycle_def split: jsValue.splits)
        then show ?thesis using settle_cycle [OF q2(1) t2'] by simp
      qed
    qed
  qed
qed

lemma tryCached_trace:
  "\<exists>evs. trace (snd (tryCached E url opts s)) = trace s @ evs \<and> filter isPay evs = []"
proof (cases "cacheInstance s")
  case None
  then show ?thesis by (simp add: tryCached_def)
next
  case (Some c)
  show ?thesis
  proof (cases "get (urlOf E) c url (Some (httpMethod opts)) (dateNow E (world s))")
    case None
    then show ?thesis using Some by (simp add: tryCached_def)
  next
    case g: (Some x)
    obtain cached c1 where x: "x = (cached, c1)" by (cases x)
    show ?thesis
    proof (cases cached)
      case None
      then show ?thesis using Some g x by (simp add: tryCached_def)
    next
      case m: (Some mp)
      obtain macaroon preimage where mp: "mp = (macaroon, preimage)" by (cases mp)
      let ?s1 = "s\<lparr>cacheInstance := Some c1\<rparr>"
      let ?a = "Some (authorization macaroon preimage)"
      obtain r s2 where f: "doFetch E url ?a ?s1 = (r, s2)" by (cases "doFetch E url ?a ?s1")
      have t2: "trace s2 = trace s @ [Fetch ?a r]"
        using doFetch_trace [of E url ?a ?s1] f by simp
      have "trace (snd (tryCached E url opts s)) = trace s2"
        using Some g x m mp f
        by (auto simp: tryCached_def Let_def split: option.splits)
      then show ?thesis using t2 by simp
    qed
  qed
qed

lemma l402Fetch_cycle:
  "\<exists>evs. trace (snd (l402Fetch E url opts s)) = trace s @ evs
     \<and> oneCycle evs (fst (l402Fetch E url opts s))"
proof -
  obtain res s1 where t: "tryCached E url opts s = (res, s1)"
    by (cases "tryCached E url opts s")
  obtain evs0 where e0: "trace s1 = trace s @ evs0" "filter isPay evs0 = []"
    using tryCached_trace [of E url opts s] t by auto
  show ?thesis
  proof (cases res)
    case (Some result)
    then have "l402Fetch E url opts s = (result, s1)" using t by (simp add: l402Fetch_def)
    then show ?thesis using e0 by (simp add: oneCycle_quiet)
  next
    case None
    then have l: "l402Fetch E url opts s = payCycle E url opts s1"
      using t by (simp add: l402Fetch_def)
    obtain evs where e: "trace (snd (payCycle E url opts s1)) = trace s1 @ evs" "evs \<noteq> []"
      "oneCycle evs (fst (payCycle E url opts s1))"
      using payCycle_cycle [of E url opts s1] by blast
    have "oneCycle (evs0 @ evs) (fst (payCycle E url opts s1))"
      using e0(2) e(2,3) by (rule oneCycle_skip)
    then show ?thesis
      unfolding l using e(1) e0(1) by (intro exI [of _ "evs0 @ evs"]) simp
  qed
qed

text \<open>
  C5. In every call of \<open>l402Fetch\<close> (taken with an empty trace), \<open>payInvoice\<close> is invoked
  at most once, at most one request is sent from the payment on, and when a payment was
  made and the last thing the call did was a request that got an answer, that answer is
  the result of the call, whatever its status: a second 402 is handed to the caller,
  with no further payment or request.
\<close>

theorem single_cycle:
  assumes "trace s = []"
  shows "payments (trace (snd (l402Fetch E url opts s))) \<le> 1
    \<and> fetchesAfterPay (trace (snd (l402Fetch E url opts s))) \<le> 1
    \<and> (\<forall>a resp. payments (trace (snd (l402Fetch E url opts s))) = 1
          \<and> trace (snd (l402Fetch E url opts s)) \<noteq> []
          \<and> last (trace (snd (l402Fetch E url opts s))) = Fetch a (Some resp)
        \<longrightarrow> fst (l402Fetch E url opts s) = Inr resp)"
  using l402Fetch_cycle [of E url opts s] assms by (auto simp: oneCycle_def)

lemma decodeAmount_fst: "fst (decodeAmount wal invoice s) = walletAmount wal invoice (world s)"
  by (simp add: decodeAmount_def walletAmount_def Let_def split: option.splits prod.splits)

lemma determineAmount_fst:
  "fst (determineAmount wal invoice resp s)
     = (case walletAmount wal invoice (world s) of
          JsNull \<Rightarrow> (case jsonAmountSats resp of
                       Some b \<Rightarrow> if b \<noteq> 0 then JsNumber b else JsNull
                     | None \<Rightarrow> JsNull)
        | JsNumber a \<Rightarrow> JsNumber a
        | JsUndefined \<Rightarrow> JsUndefined)"
proof -
  obtain a s1 where d: "decodeAmount wal invoice s = (a, s1)"
    by (cases "decodeAmount wal invoice s")
  then have "walletAmount wal invoice (world s) = a"
    using decodeAmount_fst [of wal invoice s] by simp
  then show ?thesis
    using d by (cases a) (simp_all add: determineAmount_def)
qed

lemma payments_quiet: "filter isPay evs = [] \<Longrightarrow> payments (xs @ evs) = payments xs"
  by (simp add: payments_def)

text \<open>
  The cap of step 5, case by case. Take a call with a spending cap that reaches step
  1 (no cached credential ended it) and whose bare request is answered 402 with a
  challenge that parses, a wallet being given. If the wallet's \<open>decodeInvoice\<close> yields
  a number above the cap, or it leaves \<open>amountSats\<close> at \<open>null\<close> and the body's \<open>amountSats\<close>
  is above the cap, the call fails with the error naming the amount and the cap, and
  no payment is made during the call. If it leaves \<open>null\<close> and the body has no truthy
  \<open>amountSats\<close>, the call proceeds to \<open>payInvoice\<close> on the invoice of the challenge. If
  it yields \<open>undefined\<close>, the call proceeds to \<open>payInvoice\<close> too, whatever the body
  says.
\<close>

theorem cap_check:
  assumes "tryCached E url opts s = (None, s1)"
    and "fetch E url None (world s1) = (Some resp, w)"
    and "status resp = 402" and "wallet opts = Some wal"
    and "parseWwwAuthenticate (wwwAuthenticate resp) = Some (invoice, macaroon)"
    and "maxAmountSats opts = Some cap"
  shows "(walletAmount wal invoice w = JsNumber a \<and> cap < a
        \<longrightarrow> fst (l402Fetch E url opts s) = Inl (AmountExceeded a cap)
          \<and> payments (trace (snd (l402Fetch E url opts s))) = payments (trace s))
    \<and> (walletAmount wal invoice w = JsNull \<and> jsonAmountSats resp = Some b \<and> cap < b
        \<longrightarrow> fst (l402Fetch E url opts s) = Inl (AmountExceeded b cap)
          \<and> payments (trace (snd (l402Fetch E url opts s))) = payments (trace s))
    \<and> (walletAmount wal invoice w = JsNull
          \<and> (jsonAmountSats resp = None \<or> jsonAmountSats resp = Some 0)
        \<longrightarrow> payments (trace (snd (l402Fetch E url opts s))) = payments (trace s) + 1
          \<and> PayInvoice invoice \<in> set (trace (snd (l402Fetch E url opts s))))
    \<and> (walletAmount wal invoice w = JsUndefined
        \<longrightarrow> payments (trace (snd (l402Fetch E url opts s))) = payments (trace s) + 1
          \<and> PayInvoice invoice \<in> set (trace (snd (l402Fetch E url opts s))))"
proof -
  define s2 where "s2 = s1\<lparr>world := w, trace := trace s1 @ [Fetch None (Some resp)]\<rparr>"
  have l: "l402Fetch E url opts s = payCycle E url opts s1"
    using assms(1) by (simp add: l402Fetch_def)
  have f: "doFetch E url None s1 = (Some resp, s2)"
    using assms(2) by (simp add: doFetch_def s2_def)
  obtain evs0 where e0: "trace s1 = trace s @ evs0" "filter isPay evs0 = []"
    using tryCached_trace [of E url opts s] assms(1) by auto
  have p2: "payments (trace s2) = payments (trace s)"
    using e0 by (simp add: s2_def payments_def)
  obtain amt s3 where d: "determineAmount wal invoice resp s2 = (amt, s3)"
    by (cases "determineAmount wal invoice resp s2")
  have amt: "amt = (case walletAmount wal invoice w of
          JsNull \<Rightarrow> (case jsonAmountSats resp of
                       Some b \<Rightarrow> if b \<noteq> 0 then JsNumber b else JsNull
                     | None \<Rightarrow> JsNull)
        | JsNumber a \<Rightarrow> JsNumber a
        | JsUndefined \<Rightarrow> JsUndefined)"
    using determineAmount_fst [of wal invoice resp s2] d by (simp add: s2_def)
  obtain dq where t3: "trace s3 = trace s2 @ dq" "filter isPay dq = []"
    using determineAmount_trace [of wal invoice resp s2] d by auto
  have p3: "payments (trace s3) = payments (trace s)"
    using t3 p2 by (simp add: payments_def)
  have over: "payCycle E url opts s1 = (Inl (AmountExceeded n cap), s3)"
    if "amt = JsNumber n" "cap < n" for n
    using that f d assms(3-6) by (simp add: payCycle_def)
  have under: "payCycle E url opts s1 = settle E url opts wal invoice macaroon s3"
    if "amt = JsNull \<or> amt = JsUndefined"
    using that f d assms(3-6) by (auto simp: payCycle_def)
  obtain evs where e: "trace (snd (settle E url opts wal invoice macaroon s3))
      = trace s3 @ PayInvoice invoice # evs" "filter isPay evs = []"
    using settle_trace [of E url opts wal invoice macaroon s3] by blast
  have pays: "payments (trace (snd (l402Fetch E url opts s))) = payments (trace s) + 1
      \<and> PayInvoice invoice \<in> set (trace (snd (l402Fetch E url opts s)))"
    if "amt = JsNull \<or> amt = JsUndefined"
  proof -
    have u: "l402Fetch E url opts s = settle E url opts wal invoice macaroon s3"
      using under [OF that] l by simp
    show ?thesis
      unfolding u e(1) using e(2) p3 by (simp add: payments_def)
  qed
  show ?thesis
  proof (intro conjI impI)
    assume "walletAmount wal invoice w = JsNumber a \<and> cap < a"
    then have "payCycle E url opts s1 = (Inl (AmountExceeded a cap), s3)"
      by (intro over) (simp_all add: amt)
    then show "fst (l402Fetch E url opts s) = Inl (AmountExceeded a cap)"
      "payments (trace (snd (l402Fetch E url opts s))) = payments (trace s)"
      by (simp_all add: l p3)
  next
    assume "walletAmount wal invoice w = JsNull \<and> jsonAmountSats resp = Some b \<and> cap < b"
    then have "payCycle E url opts s1 = (Inl (AmountExceeded b cap), s3)"
      by (intro over) (auto simp: amt)
    then show "fst (l402Fetch E url opts s) = Inl (AmountExceeded b cap)"
      "payments (trace (snd (l402Fetch E url opts s))) = payments (trace s)"
      by (simp_all add: l p3)
  next
    assume "walletAmount wal invoice w = JsNull
      \<and> (jsonAmountSats resp = None \<or> jsonAmountSats resp = Some 0)"
    then have a: "amt = JsNull \<or> amt = JsUndefined" by (auto simp: amt)
    from pays [OF a]
    show "payments (trace (snd (l402Fetch E url opts s))) = payments (trace s) + 1"
      "PayInvoice invoice \<in> set (trace (snd (l402Fetch E url opts s)))"
      by blast+
  next
    assume "walletAmount wal invoice w = JsUndefined"
    then have a: "amt = JsNull \<or> amt = JsUndefined" by (simp add: amt)
    from pays [OF a]
    show "payments (trace (snd (l402Fetch E url opts s))) = payments (trace s) + 1"
      "PayInvoice invoice \<in> set (trace (snd (l402Fetch E url opts s)))"
      by blast+
  qed
qed

lemma length_foldl_round: "length hs = 8 \<Longrightarrow> length (foldl round hs zs) = 8"
  by (induction zs arbitrary: hs) (simp_all add: round_def Let_def)

lemma length_compress: "length hs = 8 \<Longrightarrow> length (compress hs block) = 8"
  by (simp add: compress_def length_foldl_round)

lemma length_blocks: "length hs = 8 \<Longrightarrow> length (blocks n hs ws) = 8"
  by (induction n arbitrary: hs ws) (simp_all add: length_compress)

lemma length_concat_be_bytes: "length (concat (map (be_bytes 4) (ws :: w32 list))) = 4 * length ws"
  by (induction ws) (simp_all add: be_bytes_def)

lemma length_sha256: "length (sha256 m) = 32"
  by (simp add: sha256_def Let_def length_concat_be_bytes length_blocks H0_def)

lemma verifyPreimage_length: "verifyPreimage preimage paymentHash \<Longrightarrow> length paymentHash = 64"
proof -
  assume "verifyPreimage preimage paymentHash"
  then have "length (toHex (sha256 (hexDecode preimage))) = length (toLowerCase paymentHash)"
    by (simp add: verifyPreimage_def)
  then show ?thesis by (simp add: length_toHex length_sha256 toLowerCase_def)
qed

lemma fake_pair_unverified: "\<not> verifyPreimage ''def456'' ''abc123''"
  using verifyPreimage_length [of "''def456''" "''abc123''"] by auto

lemma parse_fake_challenge:
  "parseWwwAuthenticate (Some (buildWwwAuthenticateHeader ''lnbc250n1fake'' ''abc123''))
     = Some (''lnbc250n1fake'', ''abc123'')"
  by code_simp

lemma wwwAuthenticate_challengeResponse:
  "wwwAuthenticate (challengeResponse invoice paymentHash amountSats)
     = Some (buildWwwAuthenticateHeader invoice paymentHash)"
  by (simp add: challengeResponse_def)

lemma status_challengeResponse: "status (challengeResponse invoice paymentHash amountSats) = 402"
  by (simp add: challengeResponse_def)

lemma parse_mock_challenge:
  "parseWwwAuthenticate (Some (buildWwwAuthenticateHeader ''lnbc500n1test'' ''aabbccdd''))
     = Some (''lnbc500n1test'', ''aabbccdd'')"
  by code_simp

lemma decodeAmount_cache: "cacheInstance (snd (decodeAmount wal invoice s)) = cacheInstance s"
  by (simp add: decodeAmount_def Let_def split: option.splits prod.splits)

lemma notify_cache: "cacheInstance (snd (notify opts wal invoice preimage s)) = cacheInstance s"
proof (cases "onPayment opts")
  case None
  then show ?thesis by (simp add: notify_def)
next
  case (Some cb)
  obtain a s1 where d: "decodeAmount wal invoice s = (a, s1)" by (cases "decodeAmount wal invoice s")
  then have "cacheInstance s1 = cacheInstance s"
    using decodeAmount_cache [of wal invoice s] by simp
  then show ?thesis using Some d by (simp add: notify_def split: prod.splits)
qed

text \<open>
  C6, as amended. The cache holds what it is given, and nothing is verified on the
  client. When a cache is in use and the payment yields a preimage (and the callback,
  if any, returns), the orchestrator stores under the request's key the macaroon of the
  challenge together with the preimage the wallet returned, whatever they are, with an
  expiry one hour ahead; the entry is there afterwards and a lookup at that time
  returns this pair.
\<close>

theorem cache_write_unverified:
  assumes "cacheInstance s = Some c"
    and "payInvoice wal invoice (world s) = (Some (Some preimage), w)" and "preimage \<noteq> []"
    and "notify opts wal invoice preimage (s\<lparr>world := w, trace := trace s @ [PayInvoice invoice]\<rparr>)
           = (True, s2)"
    and "key (urlOf E) url (Some (httpMethod opts)) = Some k"
  shows "cacheInstance (snd (settle E url opts wal invoice macaroon s))
      = Some (setAt c k \<lparr>c_macaroon = macaroon, c_preimage = preimage,
                          c_expiresAt = Some (dateNow E (world s2) + 3600000)\<rparr>
                (dateNow E (world s2)))
    \<and> map_of (cache (setAt c k \<lparr>c_macaroon = macaroon, c_preimage = preimage,
                          c_expiresAt = Some (dateNow E (world s2) + 3600000)\<rparr>
                (dateNow E (world s2)))) k
      = Some \<lparr>e_macaroon = macaroon, e_preimage = preimage,
              e_expiresAt = dateNow E (world s2) + 3600000,
              e_storedAt = dateNow E (world s2)\<rparr>
    \<and> fst (getAt (setAt c k \<lparr>c_macaroon = macaroon, c_preimage = preimage,
                          c_expiresAt = Some (dateNow E (world s2) + 3600000)\<rparr>
                (dateNow E (world s2))) k (dateNow E (world s2)))
      = Some (macaroon, preimage)"
proof -
  let ?now = "dateNow E (world s2)"
  let ?cr = "\<lparr>c_macaroon = macaroon, c_preimage = preimage, c_expiresAt = Some (?now + 3600000)\<rparr>"
  have c2: "cacheInstance s2 = Some c"
    using notify_cache [of opts wal invoice preimage
        "s\<lparr>world := w, trace := trace s @ [PayInvoice invoice]\<rparr>"] assms(1,4)
    by simp
  have r: "remember E url (httpMethod opts) macaroon preimage s2
      = Some (s2\<lparr>cacheInstance := Some (setAt c k ?cr ?now)\<rparr>)"
    using c2 assms(5) by (simp add: remember_def set_c_def Let_def)
  let ?s3 = "s2\<lparr>cacheInstance := Some (setAt c k ?cr ?now)\<rparr>"
  let ?a = "Some (authorization macaroon preimage)"
  obtain rr s4 where f: "doFetch E url ?a ?s3 = (rr, s4)" by (cases "doFetch E url ?a ?s3")
  then have "cacheInstance s4 = Some (setAt c k ?cr ?now)"
    using doFetch_cache [of E url ?a ?s3] by simp
  moreover have "snd (settle E url opts wal invoice macaroon s) = s4"
    using assms(2,3,4) r f by (simp add: settle_def Let_def split: option.splits)
  ultimately have "cacheInstance (snd (settle E url opts wal invoice macaroon s))
      = Some (setAt c k ?cr ?now)"
    by simp
  moreover have l: "map_of (cache (setAt c k ?cr ?now)) k
      = Some \<lparr>e_macaroon = macaroon, e_preimage = preimage, e_expiresAt = ?now + 3600000,
              e_storedAt = ?now\<rparr>"
    by (simp add: setAt_lookup)
  moreover have "fst (getAt (setAt c k ?cr ?now) k ?now) = Some (macaroon, preimage)"
    by (simp add: getAt_def l)
  ultimately show ?thesis by blast
qed


lemma run_fake_paywall:
  "l402Fetch (paywall (challengeResponse ''lnbc250n1fake'' ''abc123'' 25)) ''https://example.com/api''
     \<lparr>httpMethod = ''GET'', wallet = Some fakeWallet, maxAmountSats = None, onPayment = None\<rparr>
     \<lparr>world = (), cacheInstance = ci, trace = []\<rparr>
   = (r, s') \<Longrightarrow> ci = None \<or> ci = Some (newCredentialCache None None) \<Longrightarrow>
   r = Inr (challengeResponse ''lnbc250n1fake'' ''abc123'' 25)
   \<and> trace s' = [Fetch None (Some (challengeResponse ''lnbc250n1fake'' ''abc123'' 25)),
        PayInvoice ''lnbc250n1fake'',
        Fetch (Some (authorization ''abc123'' ''def456''))
          (Some (challengeResponse ''lnbc250n1fake'' ''abc123'' 25))]
   \<and> cacheInstance s' = (case ci of None \<Rightarrow> None | Some c \<Rightarrow>
        Some (setAt c ''GET:https://example.com/api''
          \<lparr>c_macaroon = ''abc123'', c_preimage = ''def456'', c_expiresAt = Some 3601000\<rparr> 1000))"
  by (auto simp: l402Fetch_def tryCached_def payCycle_def settle_def notify_def remember_def
      doFetch_def get_def set_c_def key_def getAt_def newCredentialCache_def
      paywall_def challengeResponse_def fakeWallet_def parse_fake_challenge Let_def)

theorem single_cycle_witness:
  "fst (l402Fetch (paywall (challengeResponse ''lnbc250n1fake'' ''abc123'' 25))
          ''https://example.com/api''
          \<lparr>httpMethod = ''GET'', wallet = Some fakeWallet, maxAmountSats = None, onPayment = None\<rparr>
          \<lparr>world = (), cacheInstance = None, trace = []\<rparr>)
     = Inr (challengeResponse ''lnbc250n1fake'' ''abc123'' 25)
   \<and> status (challengeResponse ''lnbc250n1fake'' ''abc123'' 25) = 402
   \<and> payments (trace (snd (l402Fetch (paywall (challengeResponse ''lnbc250n1fake'' ''abc123'' 25))
          ''https://example.com/api''
          \<lparr>httpMethod = ''GET'', wallet = Some fakeWallet, maxAmountSats = None, onPayment = None\<rparr>
          \<lparr>world = (), cacheInstance = None, trace = []\<rparr>))) = 1"
proof -
  let ?R = "challengeResponse ''lnbc250n1fake'' ''abc123'' 25"
  let ?run = "l402Fetch (paywall ?R) ''https://example.com/api''
      \<lparr>httpMethod = ''GET'', wallet = Some fakeWallet, maxAmountSats = None, onPayment = None\<rparr>
      \<lparr>world = (), cacheInstance = None, trace = []\<rparr>"
  have t: "trace (snd ?run) = [Fetch None (Some ?R), PayInvoice ''lnbc250n1fake'',
      Fetch (Some (authorization ''abc123'' ''def456'')) (Some ?R)]"
    using run_fake_paywall [of None "fst ?run" "snd ?run"] by simp
  then have p: "payments (trace (snd ?run)) = 1" by (simp add: payments_def)
  from single_cycle [of "\<lparr>world = (), cacheInstance = None, trace = []\<rparr>" "paywall ?R"
      "''https://example.com/api''"
      "\<lparr>httpMethod = ''GET'', wallet = Some fakeWallet, maxAmountSats = None, onPayment = None\<rparr>"]
  have "\<forall>a resp. payments (trace (snd ?run)) = 1 \<and> trace (snd ?run) \<noteq> []
      \<and> last (trace (snd ?run)) = Fetch a (Some resp) \<longrightarrow> fst ?run = Inr resp"
    by simp
  with p t have "fst ?run = Inr ?R" by simp
  with p show ?thesis by (simp add: challengeResponse_def)
qed

text \<open>
  The scenario of the repository's tests: a cap of 30 against a decoded amount of 50.
\<close>

theorem cap_check_scenario:
  "fst (l402Fetch (paywall (challengeResponse ''lnbc500n1test'' ''aabbccdd'' 50))
          ''https://example.com/api''
          \<lparr>httpMethod = ''GET'', wallet = Some mockWallet, maxAmountSats = Some 30, onPayment = None\<rparr>
          \<lparr>world = (), cacheInstance = None, trace = []\<rparr>)
     = Inl (AmountExceeded 50 30)
   \<and> payments (trace (snd (l402Fetch (paywall (challengeResponse ''lnbc500n1test'' ''aabbccdd'' 50))
          ''https://example.com/api''
          \<lparr>httpMethod = ''GET'', wallet = Some mockWallet, maxAmountSats = Some 30, onPayment = None\<rparr>
          \<lparr>world = (), cacheInstance = None, trace = []\<rparr>))) = 0"
proof -
  let ?R = "challengeResponse ''lnbc500n1test'' ''aabbccdd'' 50"
  let ?o = "\<lparr>httpMethod = ''GET'', wallet = Some mockWallet, maxAmountSats = Some 30,
      onPayment = None\<rparr> :: unit opts"
  let ?s = "\<lparr>world = (), cacheInstance = None, trace = []\<rparr> :: unit state"
  have 1: "tryCached (paywall ?R) ''https://example.com/api'' ?o ?s = (None, ?s)"
    by (simp add: tryCached_def)
  have 2: "fetch (paywall ?R) ''https://example.com/api'' None (world ?s) = (Some ?R, ())"
    by (simp add: paywall_def)
  have 3: "status ?R = 402" by (simp add: challengeResponse_def)
  have 4: "wallet ?o = Some mockWallet" by simp
  have 5: "parseWwwAuthenticate (wwwAuthenticate ?R) = Some (''lnbc500n1test'', ''aabbccdd'')"
    by (simp add: challengeResponse_def parse_mock_challenge)
  have 6: "maxAmountSats ?o = Some 30" by simp
  have 7: "walletAmount mockWallet ''lnbc500n1test'' () = JsNumber 50"
    by (simp add: walletAmount_def mockWallet_def startsWith_def)
  from cap_check [OF 1 2 3 4 5 6, of 50] 7 show ?thesis
    by (simp add: payments_def)
qed

text \<open>
  C4 fails in the code. The amount is meant to come from the wallet's \<open>decodeInvoice\<close>
  or else from the body's \<open>amountSats\<close>, and the cap is a safety limit on it. But the
  body is read only when \<open>amountSats === null\<close>, and a \<open>decodeInvoice\<close> whose result has
  no \<open>amountSats\<close> leaves \<open>undefined\<close> there. With the wallet of the tests made
  asynchronous, a cap of 30 and the 402 answer of the tests, whose body says
  \<open>amountSats\<close> 50 (above the cap): the call does not fail with the cap's error; it
  decodes, pays the invoice, and sends the request again.
\<close>

theorem spending_cap_bypassed:
  "jsonAmountSats (challengeResponse ''lnbc500n1test'' ''aabbccdd'' 50) = Some 50
   \<and> l402Fetch (paywall (challengeResponse ''lnbc500n1test'' ''aabbccdd'' 50))
          ''https://example.com/api''
          \<lparr>httpMethod = ''GET'', wallet = Some asyncWallet, maxAmountSats = Some 30, onPayment = None\<rparr>
          \<lparr>world = (), cacheInstance = None, trace = []\<rparr>
     = (Inr (challengeResponse ''lnbc500n1test'' ''aabbccdd'' 50),
        \<lparr>world = (), cacheInstance = None,
         trace = [Fetch None (Some (challengeResponse ''lnbc500n1test'' ''aabbccdd'' 50)),
                  DecodeInvoice ''lnbc500n1test'',
                  PayInvoice ''lnbc500n1test'',
                  Fetch (Some (authorization ''aabbccdd''
                           ''0000000000000000000000000000000000000000000000000000000000000001''))
                    (Some (challengeResponse ''lnbc500n1test'' ''aabbccdd'' 50))]\<rparr>)"
proof -
  have j: "jsonAmountSats (challengeResponse ''lnbc500n1test'' ''aabbccdd'' 50) = Some 50"
    by (simp add: challengeResponse_def)
  have "l402Fetch (paywall (challengeResponse ''lnbc500n1test'' ''aabbccdd'' 50))
          ''https://example.com/api''
          \<lparr>httpMethod = ''GET'', wallet = Some asyncWallet, maxAmountSats = Some 30, onPayment = None\<rparr>
          \<lparr>world = (), cacheInstance = None, trace = []\<rparr>
     = (Inr (challengeResponse ''lnbc500n1test'' ''aabbccdd'' 50),
        \<lparr>world = (), cacheInstance = None,
         trace = [Fetch None (Some (challengeResponse ''lnbc500n1test'' ''aabbccdd'' 50)),
                  DecodeInvoice ''lnbc500n1test'',
                  PayInvoice ''lnbc500n1test'',
                  Fetch (Some (authorization ''aabbccdd''
                           ''0000000000000000000000000000000000000000000000000000000000000001''))
                    (Some (challengeResponse ''lnbc500n1test'' ''aabbccdd'' 50))]\<rparr>)"
    by (simp add: l402Fetch_def tryCached_def payCycle_def settle_def notify_def remember_def
        determineAmount_def decodeAmount_def doFetch_def paywall_def asyncWallet_def
        parse_mock_challenge Let_def wwwAuthenticate_challengeResponse
        status_challengeResponse)
  with j show ?thesis by (rule conjI)
qed

theorem cache_write_unverified_witness:
  "fst (getAt (setAt (newCredentialCache None None) ''GET:https://example.com/api''
          \<lparr>c_macaroon = ''abc123'', c_preimage = ''def456'', c_expiresAt = Some (1000 + 3600000)\<rparr>
          1000) ''GET:https://example.com/api'' 1000)
     = Some (''abc123'', ''def456'')"
proof -
  let ?s = "\<lparr>world = (), cacheInstance = Some (newCredentialCache None None),
      trace = [Fetch None (Some (challengeResponse ''lnbc250n1fake'' ''abc123'' 25))]\<rparr> :: unit state"
  let ?o = "\<lparr>httpMethod = ''GET'', wallet = Some fakeWallet, maxAmountSats = None,
      onPayment = None\<rparr> :: unit opts"
  let ?E = "paywall (challengeResponse ''lnbc250n1fake'' ''abc123'' 25)"
  have 1: "cacheInstance ?s = Some (newCredentialCache None None)" by simp
  have 2: "payInvoice fakeWallet ''lnbc250n1fake'' (world ?s) = (Some (Some ''def456''), ())"
    by (simp add: fakeWallet_def)
  have 3: "''def456'' \<noteq> []" by simp
  have 4: "notify ?o fakeWallet ''lnbc250n1fake'' ''def456''
      (?s\<lparr>world := (), trace := trace ?s @ [PayInvoice ''lnbc250n1fake'']\<rparr>)
      = (True, ?s\<lparr>world := (), trace := trace ?s @ [PayInvoice ''lnbc250n1fake'']\<rparr>)"
    by (simp add: notify_def)
  have 5: "key (urlOf ?E) ''https://example.com/api'' (Some (httpMethod ?o))
      = Some ''GET:https://example.com/api''"
    by (simp add: key_def paywall_def)
  from cache_write_unverified [OF 1 2 3 4 5, of "''abc123''"] show ?thesis
    by (simp add: paywall_def)
qed

text \<open>
  C6 as stated fails. With the wallet and the challenge of the repository's tests, the
  call stores the pair \<open>(abc123, def456)\<close>, and the verifier rejects it.
\<close>

theorem cache_unverified_counterexample:
  "(case cacheInstance (snd (l402Fetch (paywall (challengeResponse ''lnbc250n1fake'' ''abc123'' 25))
          ''https://example.com/api''
          \<lparr>httpMethod = ''GET'', wallet = Some fakeWallet, maxAmountSats = None, onPayment = None\<rparr>
          \<lparr>world = (), cacheInstance = Some (newCredentialCache None None), trace = []\<rparr>)) of
      None \<Rightarrow> None
    | Some c \<Rightarrow> fst (getAt c ''GET:https://example.com/api'' 2000))
     = Some (''abc123'', ''def456'')
   \<and> \<not> verifyPreimage ''def456'' ''abc123''"
proof -
  let ?run = "l402Fetch (paywall (challengeResponse ''lnbc250n1fake'' ''abc123'' 25))
      ''https://example.com/api''
      \<lparr>httpMethod = ''GET'', wallet = Some fakeWallet, maxAmountSats = None, onPayment = None\<rparr>
      \<lparr>world = (), cacheInstance = Some (newCredentialCache None None), trace = []\<rparr>"
  have "cacheInstance (snd ?run) = Some (setAt (newCredentialCache None None)
      ''GET:https://example.com/api''
      \<lparr>c_macaroon = ''abc123'', c_preimage = ''def456'', c_expiresAt = Some 3601000\<rparr> 1000)"
    using run_fake_paywall [of "Some (newCredentialCache None None)" "fst ?run" "snd ?run"]
    by simp
  then show ?thesis
    by (simp add: getAt_def setAt_lookup fake_pair_unverified)
qed

end
